theory Spec2Isabelle
  imports Main "HOL-Library.Word"
begin

section \<open>Faults and C integers\<close>

text \<open>
  Every way in which the C code stops without producing its result is a value:
  \<open>Exit n\<close> is \<^verbatim>\<open>exit(n)\<close> (\<^verbatim>\<open>throw_gc\<close> exits with 2, \<^verbatim>\<open>MALLOC\<close> with 1),
  \<open>Out_Of_Bounds\<close> is an array access outside the array, \<open>Bad_Access\<close> is a payload
  read through the wrong variant of the object union or an uninitialised slot, and
  \<open>External_Error\<close> is a failure inside a collaborator that is not part of the two
  source files.  The last three have no defined behaviour in C.
\<close>

datatype fault = Exit int | Out_Of_Bounds | Bad_Access | External_Error

definition bnd :: "fault + 'a \<Rightarrow> ('a \<Rightarrow> fault + 'b) \<Rightarrow> fault + 'b" where
  "bnd m f = (case m of Inl e \<Rightarrow> Inl e | Inr v \<Rightarrow> f v)"

text \<open>The conversion of a \<^verbatim>\<open>long\<close> to a 32-bit \<^verbatim>\<open>int\<close> (two's complement).\<close>

definition c_int :: "int \<Rightarrow> int" where
  "c_int x = signed_take_bit 31 x"

section \<open>Stack sets (gc.c)\<close>

text \<open>
  \<^verbatim>\<open>struct stack_set\<close>: the array \<^verbatim>\<open>objs\<close> of \<^verbatim>\<open>size\<close> slots and the index \<^verbatim>\<open>top\<close>
  of the first unused slot.  A slot that was never written holds \<open>None\<close>.
\<close>

record 'a stack_set =
  objs :: "'a option list"
  top_ss :: int
  size_ss :: int

definition make_stack_set :: "int \<Rightarrow> 'a stack_set" where
  "make_stack_set initial_size =
     \<lparr>objs = replicate (nat initial_size) None, top_ss = 0, size_ss = initial_size\<rparr>"

definition clear_stack_set :: "'a stack_set \<Rightarrow> 'a stack_set" where
  "clear_stack_set ss = ss\<lparr>top_ss := 0\<rparr>"

text \<open>
  \<^verbatim>\<open>stack_set_push\<close>: when \<^verbatim>\<open>top == size\<close> the array is reallocated at twice the size
  (the old \<^verbatim>\<open>size\<close> slots are copied, the new ones are uninitialised); then the value is
  stored at \<^verbatim>\<open>objs[top++]\<close>.
\<close>

definition stack_set_push :: "'a stack_set \<Rightarrow> 'a \<Rightarrow> fault + 'a stack_set" where
  "stack_set_push ss v =
     (let ss1 = (if top_ss ss = size_ss ss
                 then ss\<lparr>objs := take (nat (size_ss ss)) (objs ss)
                                   @ replicate (nat (size_ss ss * 2) - nat (size_ss ss)) None,
                         size_ss := size_ss ss * 2\<rparr>
                 else ss)
      in if 0 \<le> top_ss ss1 \<and> top_ss ss1 < int (length (objs ss1))
         then Inr (ss1\<lparr>objs := (objs ss1)[nat (top_ss ss1) := Some v],
                       top_ss := top_ss ss1 + 1\<rparr>)
         else Inl Out_Of_Bounds)"

text \<open>
  The scan loop of \<^verbatim>\<open>stack_set_pop\<close>:
  \<^verbatim>\<open>for(; idx >= 0 && !done; --idx) { if(objs[idx] == value) done = 1;
       temp = objs[idx]; objs[idx] = last; last = temp; }\<close>
\<close>

function scan_back ::
  "'a \<Rightarrow> 'a option list \<Rightarrow> int \<Rightarrow> 'a option \<Rightarrow> bool \<Rightarrow> fault + ('a option list \<times> bool)" where
  "scan_back v arr idx last_v done =
     (if 0 \<le> idx \<and> \<not> done then
        (if idx < int (length arr) then
           scan_back v (arr[nat idx := last_v]) (idx - 1) (arr ! nat idx)
             (if arr ! nat idx = Some v then True else done)
         else Inl Out_Of_Bounds)
      else Inr (arr, done))"
  by pat_completeness auto
termination
  by (relation "measure (\<lambda>(v, arr, idx, last_v, done). nat (idx + 1))") auto

declare scan_back.simps [simp del]

text \<open>
  \<^verbatim>\<open>stack_set_pop\<close>: \<^verbatim>\<open>top\<close> is decremented first and the slot \<^verbatim>\<open>objs[top]\<close> read.
  On the empty stack that slot is \<^verbatim>\<open>objs[-1]\<close>, the word of the pool in front of the
  array: it is not an address that was pushed, so it reads as \<open>None\<close> here, the comparison
  fails and the scan starts at \<^verbatim>\<open>idx = -2\<close>.  A read above the array is \<open>Out_Of_Bounds\<close>.
  \<^verbatim>\<open>int idx = ss->top - 1\<close> narrows to \<^verbatim>\<open>int\<close>.  The result is the returned flag and the
  updated stack set.
\<close>

definition stack_set_pop :: "'a stack_set \<Rightarrow> 'a \<Rightarrow> fault + (bool \<times> 'a stack_set)" where
  "stack_set_pop ss v =
     (let t = top_ss ss - 1 in
      if int (length (objs ss)) \<le> t then Inl Out_Of_Bounds
      else
        (let x = (if t < 0 then None else objs ss ! nat t) in
         if x \<noteq> Some v then
           (case scan_back v (objs ss) (c_int (t - 1)) x False of
              Inl f \<Rightarrow> Inl f
            | Inr (arr, done) \<Rightarrow> Inr (done, ss\<lparr>objs := arr, top_ss := t\<rparr>))
         else Inr (True, ss\<lparr>top_ss := t\<rparr>)))"

text \<open>
  \<^verbatim>\<open>push_root\<close> and \<^verbatim>\<open>pop_root\<close> act on the global \<^verbatim>\<open>Root_Objects\<close>, passed explicitly.
  \<^verbatim>\<open>pop_root\<close> calls \<^verbatim>\<open>throw_gc\<close>, that is \<^verbatim>\<open>exit(2)\<close>, when \<^verbatim>\<open>stack_set_pop\<close>
  returns 0.
\<close>

definition push_root :: "'r stack_set \<Rightarrow> 'r \<Rightarrow> fault + 'r stack_set" where
  "push_root Root_Objects root = stack_set_push Root_Objects root"

definition pop_root :: "'r stack_set \<Rightarrow> 'r \<Rightarrow> fault + 'r stack_set" where
  "pop_root Root_Objects root =
     (case stack_set_pop Root_Objects root of
        Inl f \<Rightarrow> Inl f
      | Inr (found, ss) \<Rightarrow> if \<not> found then Inl (Exit 2) else Inr ss)"

text \<open>
  The entries of a stack set, bottom first, and its representation invariant: \<^verbatim>\<open>top\<close>
  lies within the array, \<^verbatim>\<open>size\<close> is the length of the array, and the indices fit the
  \<^verbatim>\<open>int\<close> that \<^verbatim>\<open>stack_set_pop\<close> scans with.
\<close>

definition live :: "'a stack_set \<Rightarrow> 'a option list" where
  "live ss = take (nat (top_ss ss)) (objs ss)"

definition stack_set_ok :: "'a stack_set \<Rightarrow> bool" where
  "stack_set_ok ss \<longleftrightarrow>
     0 \<le> top_ss ss \<and> top_ss ss \<le> size_ss ss \<and> int (length (objs ss)) = size_ss ss
     \<and> size_ss ss \<le> 2147483647"

text \<open>What the scan leaves of the slots below the old top: the topmost occurrence of the
  value is dropped, or the bottom entry when there is none.\<close>

definition shifted :: "'a \<Rightarrow> 'a option list \<Rightarrow> 'a option list" where
  "shifted v xs = (if Some v \<in> set xs then rev (remove1 (Some v) (rev xs)) else tl xs)"

text \<open>Two concrete root stacks: three pinned addresses in an array of four slots, and an
  empty stack.\<close>

definition ex_roots :: "nat stack_set" where
  "ex_roots = \<lparr>objs = [Some 7, Some 8, Some 9, None], top_ss = 3, size_ss = 4\<rparr>"

definition empty_roots :: "nat stack_set" where
  "empty_roots = \<lparr>objs = [None, None], top_ss = 0, size_ss = 2\<rparr>"

section \<open>Objects\<close>

text \<open>
  Modelled from the spec: the object variants of \<^verbatim>\<open>types.h\<close>, which is not among the
  source files.  An object is identified by the address of its cell; the variant tag and
  the payload union are one datatype, with the object references of each payload in the
  order in which \<^verbatim>\<open>move_reachable\<close> scans them.  A \<^verbatim>\<open>VECTOR\<close> carries its array, whose
  length is \<^verbatim>\<open>VSIZE\<close>.
\<close>

type_synonym addr = nat

datatype object_data =
    PAIR addr addr
  | FIXNUM int
  | CHARACTER int
  | STRING string
  | SYMBOL string
  | VECTOR "addr list"
  | COMPOUND_PROC addr addr addr
  | SYNTAX_PROC addr addr addr
  | COMPILED_PROC addr addr
  | COMPILED_SYNTAX_PROC addr addr
  | META_PROC addr addr
  | PRIMITIVE_PROC nat
  | HASH_TABLE "(addr \<times> addr) list"
  | THE_EMPTY_LIST
  | BOOLEAN bool

text \<open>
  Modelled from the spec: the distinguished singletons and the global objects of the
  interpreter (\<^verbatim>\<open>the_empty_list\<close>, \<^verbatim>\<open>false\<close>, \<^verbatim>\<open>the_empty_vector\<close>, \<^verbatim>\<open>error_sym\<close>,
  \<^verbatim>\<open>cc_bytecode\<close>) are cells at fixed addresses; they are compared by address.
\<close>

definition the_empty_list :: addr where "the_empty_list = 0"
definition false_object :: addr where "false_object = 1"
definition error_sym :: addr where "error_sym = 3"
definition cc_bytecode :: addr where "cc_bytecode = 4"

text \<open>
  Modelled from the spec: the accessor macros and functions of \<^verbatim>\<open>types.h\<close>.  Each reads
  one member of the payload union; reading a member of another variant is \<open>Bad_Access\<close>.
\<close>

definition car :: "(addr \<Rightarrow> object_data) \<Rightarrow> addr \<Rightarrow> fault + addr" where
  "car h a = (case h a of PAIR x y \<Rightarrow> Inr x | _ \<Rightarrow> Inl Bad_Access)"

definition cdr :: "(addr \<Rightarrow> object_data) \<Rightarrow> addr \<Rightarrow> fault + addr" where
  "cdr h a = (case h a of PAIR x y \<Rightarrow> Inr y | _ \<Rightarrow> Inl Bad_Access)"

definition set_car :: "(addr \<Rightarrow> object_data) \<Rightarrow> addr \<Rightarrow> addr \<Rightarrow> fault + (addr \<Rightarrow> object_data)" where
  "set_car h a v = (case h a of PAIR x y \<Rightarrow> Inr (h(a := PAIR v y)) | _ \<Rightarrow> Inl Bad_Access)"

definition set_cdr :: "(addr \<Rightarrow> object_data) \<Rightarrow> addr \<Rightarrow> addr \<Rightarrow> fault + (addr \<Rightarrow> object_data)" where
  "set_cdr h a v = (case h a of PAIR x y \<Rightarrow> Inr (h(a := PAIR x v)) | _ \<Rightarrow> Inl Bad_Access)"

definition LONG :: "(addr \<Rightarrow> object_data) \<Rightarrow> addr \<Rightarrow> fault + int" where
  "LONG h a = (case h a of FIXNUM n \<Rightarrow> Inr n | _ \<Rightarrow> Inl Bad_Access)"

definition CHAR_obj :: "(addr \<Rightarrow> object_data) \<Rightarrow> addr \<Rightarrow> fault + int" where
  "CHAR_obj h a = (case h a of CHARACTER c \<Rightarrow> Inr c | _ \<Rightarrow> Inl Bad_Access)"

definition VARRAY :: "(addr \<Rightarrow> object_data) \<Rightarrow> addr \<Rightarrow> fault + addr list" where
  "VARRAY h a = (case h a of VECTOR xs \<Rightarrow> Inr xs | _ \<Rightarrow> Inl Bad_Access)"

definition VSIZE :: "(addr \<Rightarrow> object_data) \<Rightarrow> addr \<Rightarrow> fault + int" where
  "VSIZE h a = (case h a of VECTOR xs \<Rightarrow> Inr (int (length xs)) | _ \<Rightarrow> Inl Bad_Access)"

definition BYTECODE :: "(addr \<Rightarrow> object_data) \<Rightarrow> addr \<Rightarrow> fault + addr" where
  "BYTECODE h a = (case h a of COMPILED_PROC b e \<Rightarrow> Inr b
                   | COMPILED_SYNTAX_PROC b e \<Rightarrow> Inr b | _ \<Rightarrow> Inl Bad_Access)"

definition CENV :: "(addr \<Rightarrow> object_data) \<Rightarrow> addr \<Rightarrow> fault + addr" where
  "CENV h a = (case h a of COMPILED_PROC b e \<Rightarrow> Inr e
               | COMPILED_SYNTAX_PROC b e \<Rightarrow> Inr e | _ \<Rightarrow> Inl Bad_Access)"

definition METAPROC :: "(addr \<Rightarrow> object_data) \<Rightarrow> addr \<Rightarrow> fault + addr" where
  "METAPROC h a = (case h a of META_PROC p m \<Rightarrow> Inr p | _ \<Rightarrow> Inl Bad_Access)"

definition is_meta :: "(addr \<Rightarrow> object_data) \<Rightarrow> addr \<Rightarrow> bool" where
  "is_meta h a = (case h a of META_PROC p m \<Rightarrow> True | _ \<Rightarrow> False)"

definition is_compiled_proc :: "(addr \<Rightarrow> object_data) \<Rightarrow> addr \<Rightarrow> bool" where
  "is_compiled_proc h a = (case h a of COMPILED_PROC b e \<Rightarrow> True | _ \<Rightarrow> False)"

definition is_compiled_syntax_proc :: "(addr \<Rightarrow> object_data) \<Rightarrow> addr \<Rightarrow> bool" where
  "is_compiled_syntax_proc h a = (case h a of COMPILED_SYNTAX_PROC b e \<Rightarrow> True | _ \<Rightarrow> False)"

definition is_primitive_proc :: "(addr \<Rightarrow> object_data) \<Rightarrow> addr \<Rightarrow> bool" where
  "is_primitive_proc h a = (case h a of PRIMITIVE_PROC p \<Rightarrow> True | _ \<Rightarrow> False)"

definition is_the_empty_list :: "addr \<Rightarrow> bool" where
  "is_the_empty_list a \<longleftrightarrow> a = the_empty_list"

definition is_falselike :: "addr \<Rightarrow> bool" where
  "is_falselike a \<longleftrightarrow> a = false_object"

text \<open>Reading and writing one slot of a vector's array, with the bounds of the array.\<close>

definition vref :: "(addr \<Rightarrow> object_data) \<Rightarrow> addr \<Rightarrow> int \<Rightarrow> fault + addr" where
  "vref h a i = (case h a of
       VECTOR xs \<Rightarrow> if 0 \<le> i \<and> i < int (length xs) then Inr (xs ! nat i) else Inl Out_Of_Bounds
     | _ \<Rightarrow> Inl Bad_Access)"

definition vset :: "(addr \<Rightarrow> object_data) \<Rightarrow> addr \<Rightarrow> int \<Rightarrow> addr \<Rightarrow> fault + (addr \<Rightarrow> object_data)" where
  "vset h a i v = (case h a of
       VECTOR xs \<Rightarrow> if 0 \<le> i \<and> i < int (length xs) then Inr (h(a := VECTOR (xs[nat i := v])))
                    else Inl Out_Of_Bounds
     | _ \<Rightarrow> Inl Bad_Access)"

text \<open>
  \<^verbatim>\<open>vector_push\<close> (vm.c): a full vector grows to \<^verbatim>\<open>old_size * 1.8\<close> slots, truncated to
  a \<^verbatim>\<open>long\<close> (that is \<open>old_size * 9 div 5\<close> for the sizes a vector can have), the new
  slots filled with the empty list; then \<^verbatim>\<open>VARRAY(stack)[top] = thing\<close>.
\<close>

definition vector_push ::
  "(addr \<Rightarrow> object_data) \<Rightarrow> addr \<Rightarrow> addr \<Rightarrow> int \<Rightarrow> fault + (addr \<Rightarrow> object_data)" where
  "vector_push h stack thing top_v =
     (case h stack of
        VECTOR xs \<Rightarrow>
          (let ys = (if top_v = int (length xs)
                     then xs @ replicate (length xs * 9 div 5 - length xs) the_empty_list
                     else xs)
           in if 0 \<le> top_v \<and> top_v < int (length ys)
              then Inr (h(stack := VECTOR (ys[nat top_v := thing])))
              else Inl Out_Of_Bounds)
      | _ \<Rightarrow> Inl Bad_Access)"

text \<open>\<^verbatim>\<open>vector_pop\<close> (vm.c): \<^verbatim>\<open>old = VARRAY(stack)[--top]; VARRAY(stack)[top] =
  the_empty_list; return old;\<close>\<close>

definition vector_pop ::
  "(addr \<Rightarrow> object_data) \<Rightarrow> addr \<Rightarrow> int \<Rightarrow> fault + (addr \<times> (addr \<Rightarrow> object_data))" where
  "vector_pop h stack top_v =
     (case h stack of
        VECTOR xs \<Rightarrow>
          (let t = top_v - 1
           in if 0 \<le> t \<and> t < int (length xs)
              then Inr (xs ! nat t, h(stack := VECTOR (xs[nat t := the_empty_list])))
              else Inl Out_Of_Bounds)
      | _ \<Rightarrow> Inl Bad_Access)"

section \<open>The bytecode machine (vm.c)\<close>

text \<open>
  The addresses that \<^verbatim>\<open>vm_execute\<close> pins on the root stack: its locals \<^verbatim>\<open>fn\<close>,
  \<^verbatim>\<open>env\<close> and \<^verbatim>\<open>top\<close> for the whole activation, the other locals around one
  allocation.  \<open>Root_other\<close> stands for the pins of the callers.
\<close>

datatype root =
    Root_fn | Root_env | Root_top | Root_new_fn | Root_newframe | Root_pfn | Root_target_fn
  | Root_var | Root_cc_env | Root_new_stack | Root_ret_addr | Root_other nat

text \<open>
  The state of one activation of \<^verbatim>\<open>vm_execute\<close>: the object memory, the root stack and
  the global environment (the globals of the process), and the locals of the function.
  \<open>next_cell\<close> is the first address that no object occupies yet.  The local \<^verbatim>\<open>top\<close> is
  \<open>top_reg\<close>.  \<^verbatim>\<open>codes\<close> is the array of \<open>code_array\<close>.
\<close>

record vm_state =
  heap :: "addr \<Rightarrow> object_data"
  next_cell :: addr
  vm_roots :: "root stack_set"
  globals :: "addr \<Rightarrow> addr option"
  fn :: addr
  env :: addr
  top_reg :: addr
  stack :: addr
  stack_top :: int
  n_args :: int
  initial_top :: int
  pc :: int
  code_array :: addr
  num_codes :: int

text \<open>Where control goes after a piece of \<^verbatim>\<open>vm_execute\<close>: \<^verbatim>\<open>return obj\<close>,
  \<^verbatim>\<open>goto vm_begin\<close> or \<^verbatim>\<open>goto vm_fn_begin\<close>.\<close>

datatype vm_outcome = Returned addr vm_state | At_vm_begin vm_state | At_vm_fn_begin vm_state

text \<open>
  Modelled from the spec: the constructors of \<^verbatim>\<open>types.c\<close> (\<^verbatim>\<open>cons\<close>, \<^verbatim>\<open>make_vector\<close>,
  \<^verbatim>\<open>make_fixnum\<close>, \<^verbatim>\<open>make_compiled_proc\<close>), not among the source files.  Each takes a
  cell that no object occupies and fills its payload; the collection that the allocator
  may run is not part of the machine's model.
\<close>

definition alloc :: "vm_state \<Rightarrow> object_data \<Rightarrow> addr \<times> vm_state" where
  "alloc st d = (next_cell st, st\<lparr>heap := (heap st)(next_cell st := d),
                                   next_cell := Suc (next_cell st)\<rparr>)"

definition cons :: "vm_state \<Rightarrow> addr \<Rightarrow> addr \<Rightarrow> addr \<times> vm_state" where
  "cons st a d = alloc st (PAIR a d)"

definition make_vector :: "vm_state \<Rightarrow> addr \<Rightarrow> int \<Rightarrow> addr \<times> vm_state" where
  "make_vector st fill n = alloc st (VECTOR (replicate (nat n) fill))"

definition make_fixnum :: "vm_state \<Rightarrow> int \<Rightarrow> addr \<times> vm_state" where
  "make_fixnum st n = alloc st (FIXNUM n)"

definition make_compiled_proc :: "vm_state \<Rightarrow> addr \<Rightarrow> addr \<Rightarrow> addr \<times> vm_state" where
  "make_compiled_proc st b e = alloc st (COMPILED_PROC b e)"

text \<open>
  Modelled from the spec: the global environment (\<^verbatim>\<open>interp.c\<close>) is a mapping from
  symbols to values; what a lookup of an unbound symbol does is not known.
\<close>

definition lookup_global_value :: "vm_state \<Rightarrow> addr \<Rightarrow> fault + addr" where
  "lookup_global_value st symb =
     (case globals st symb of None \<Rightarrow> Inl External_Error | Some v \<Rightarrow> Inr v)"

definition define_global_variable :: "vm_state \<Rightarrow> addr \<Rightarrow> addr \<Rightarrow> vm_state" where
  "define_global_variable st var val = st\<lparr>globals := (globals st)(var \<mapsto> val)\<rparr>"

text \<open>The instruction accessors \<^verbatim>\<open>OPCODE\<close>, \<^verbatim>\<open>ARG1\<close>, \<^verbatim>\<open>ARG2\<close> of vm.c.\<close>

definition OPCODE :: "(addr \<Rightarrow> object_data) \<Rightarrow> addr \<Rightarrow> fault + addr" where
  "OPCODE h x = car h x"

definition ARG1 :: "(addr \<Rightarrow> object_data) \<Rightarrow> addr \<Rightarrow> fault + addr" where
  "ARG1 h x = bnd (cdr h x) (car h)"

definition ARG2 :: "(addr \<Rightarrow> object_data) \<Rightarrow> addr \<Rightarrow> fault + addr" where
  "ARG2 h x = bnd (cdr h x) (\<lambda>a. bnd (cdr h a) (car h))"

text \<open>
  Modelled from the spec: the macros \<^verbatim>\<open>VPUSH\<close> and \<^verbatim>\<open>VPOP\<close> of \<^verbatim>\<open>vm.h\<close> go through
  \<^verbatim>\<open>vector_push\<close> and \<^verbatim>\<open>vector_pop\<close> and move \<^verbatim>\<open>stack_top\<close> by one.
\<close>

definition VPUSH :: "vm_state \<Rightarrow> addr \<Rightarrow> fault + vm_state" where
  "VPUSH st obj =
     bnd (vector_push (heap st) (stack st) obj (stack_top st))
       (\<lambda>h. Inr (st\<lparr>heap := h, stack_top := stack_top st + 1\<rparr>))"

definition VPOP :: "vm_state \<Rightarrow> fault + (addr \<times> vm_state)" where
  "VPOP st =
     bnd (vector_pop (heap st) (stack st) (stack_top st))
       (\<lambda>(v, h). Inr (v, st\<lparr>heap := h, stack_top := stack_top st - 1\<rparr>))"

text \<open>\<^verbatim>\<open>VPOP(top, stack, stack_top)\<close>: the popped value goes to the local \<^verbatim>\<open>top\<close>.\<close>

definition VPOP_top :: "vm_state \<Rightarrow> fault + vm_state" where
  "VPOP_top st = bnd (VPOP st) (\<lambda>(v, st1). Inr (st1\<lparr>top_reg := v\<rparr>))"

definition PUSH_ROOT :: "vm_state \<Rightarrow> root \<Rightarrow> fault + vm_state" where
  "PUSH_ROOT st r = bnd (push_root (vm_roots st) r) (\<lambda>rs. Inr (st\<lparr>vm_roots := rs\<rparr>))"

definition POP_ROOT :: "vm_state \<Rightarrow> root \<Rightarrow> fault + vm_state" where
  "POP_ROOT st r = bnd (pop_root (vm_roots st) r) (\<lambda>rs. Inr (st\<lparr>vm_roots := rs\<rparr>))"

text \<open>\<^verbatim>\<open>VM_RETURN(obj)\<close>: unpin \<^verbatim>\<open>top\<close>, \<^verbatim>\<open>env\<close> and \<^verbatim>\<open>fn\<close>, then return.\<close>

definition VM_RETURN :: "vm_state \<Rightarrow> addr \<Rightarrow> fault + vm_outcome" where
  "VM_RETURN st obj =
     bnd (POP_ROOT st Root_top) (\<lambda>st1.
     bnd (POP_ROOT st1 Root_env) (\<lambda>st2.
     bnd (POP_ROOT st2 Root_fn) (\<lambda>st3. Inr (Returned obj st3))))"

text \<open>\<^verbatim>\<open>VM_ASSERT(test, msg)\<close>: when the test fails, print the message on the standard
  error stream and \<^verbatim>\<open>VM_RETURN(error_sym)\<close>.  The printing is not modelled.\<close>

definition VM_ASSERT :: "bool \<Rightarrow> vm_state \<Rightarrow> (vm_state \<Rightarrow> fault + vm_outcome) \<Rightarrow> fault + vm_outcome" where
  "VM_ASSERT test st continue = (if \<not> test then VM_RETURN st error_sym else continue st)"

text \<open>\<^verbatim>\<open>RETURN_OPCODE_INSTRUCTIONS\<close>.\<close>

definition RETURN_OPCODE_INSTRUCTIONS :: "vm_state \<Rightarrow> fault + vm_outcome" where
  "RETURN_OPCODE_INSTRUCTIONS st =
     (if stack_top st = initial_top st + 1 then
        bnd (VPOP st) (\<lambda>(val, st1). VM_RETURN st1 val)
      else
        bnd (VPOP st) (\<lambda>(val, st1).
        bnd (VPOP st1) (\<lambda>(ret_addr, st2).
        bnd (cdr (heap st2) ret_addr) (\<lambda>d.
        bnd (car (heap st2) d) (\<lambda>new_fn.
        bnd (car (heap st2) ret_addr) (\<lambda>a.
        bnd (LONG (heap st2) a) (\<lambda>new_pc.
        bnd (cdr (heap st2) d) (\<lambda>new_env.
        bnd (VPUSH (st2\<lparr>fn := new_fn, pc := new_pc, env := new_env\<rparr>) val) (\<lambda>st3.
        Inr (At_vm_fn_begin st3))))))))))"

text \<open>The loops of the opcodes.  \<open>pop_args st vector k\<close> is
  \<^verbatim>\<open>for(ii = k - 1; ii >= 0; --ii) { VPOP(top, stack, stack_top); vdata[ii] = top; }\<close>,
  where \<^verbatim>\<open>vdata\<close> is the array of \<open>vector\<close>.\<close>

fun pop_args :: "vm_state \<Rightarrow> addr \<Rightarrow> nat \<Rightarrow> fault + vm_state" where
  "pop_args st vector 0 = Inr st"
| "pop_args st vector (Suc ii) =
     (case VPOP_top st of
        Inl e \<Rightarrow> Inl e
      | Inr st1 \<Rightarrow>
          (case vset (heap st1) vector (int ii) (top_reg st1) of
             Inl e \<Rightarrow> Inl e
           | Inr h \<Rightarrow> pop_args (st1\<lparr>heap := h\<rparr>) vector ii))"

text \<open>\<open>pop_rest st vector slot k\<close> is the loop of \<^verbatim>\<open>argsdot\<close> that runs \<open>k\<close> times
  \<^verbatim>\<open>VPOP(top, stack, stack_top); vdata[slot] = cons(top, vdata[slot]);\<close>\<close>

fun pop_rest :: "vm_state \<Rightarrow> addr \<Rightarrow> int \<Rightarrow> nat \<Rightarrow> fault + vm_state" where
  "pop_rest st vector slot 0 = Inr st"
| "pop_rest st vector slot (Suc k) =
     (case VPOP_top st of
        Inl e \<Rightarrow> Inl e
      | Inr st1 \<Rightarrow>
          (case vref (heap st1) vector slot of
             Inl e \<Rightarrow> Inl e
           | Inr old \<Rightarrow>
               (case cons st1 (top_reg st1) old of
                  (c, st2) \<Rightarrow>
                    (case vset (heap st2) vector slot c of
                       Inl e \<Rightarrow> Inl e
                     | Inr h \<Rightarrow> pop_rest (st2\<lparr>heap := h\<rparr>) vector slot k))))"

text \<open>\<open>unwind st k\<close> is \<^verbatim>\<open>for(ii = 0; ii < k; ++ii) { VPOP(temp, stack, stack_top); }\<close>\<close>

fun unwind :: "vm_state \<Rightarrow> nat \<Rightarrow> fault + vm_state" where
  "unwind st 0 = Inr st"
| "unwind st (Suc k) = (case VPOP st of Inl e \<Rightarrow> Inl e | Inr (temp, st1) \<Rightarrow> unwind st1 k)"

text \<open>\<open>walk_env h next k\<close> is \<^verbatim>\<open>while(env_num-- > 0) { next = cdr(next); }\<close> started with
  \<^verbatim>\<open>env_num\<close> equal to \<open>k\<close>.\<close>

fun walk_env :: "(addr \<Rightarrow> object_data) \<Rightarrow> addr \<Rightarrow> nat \<Rightarrow> fault + addr" where
  "walk_env h next_e 0 = Inr next_e"
| "walk_env h next_e (Suc k) =
     (case cdr h next_e of Inl e \<Rightarrow> Inl e | Inr d \<Rightarrow> walk_env h d k)"

text \<open>The loop of \<^verbatim>\<open>callj\<close> that spreads an argument list on the stack:
  \<^verbatim>\<open>while(!is_the_empty_list(top)) { VPUSH(car(top), stack, stack_top); top = cdr(top);
  ++args_for_call; }\<close>.  It follows the list as long as the list goes on, so it is a
  partial function: \<open>None\<close> is a run that does not end.\<close>

partial_function (option) spread_args :: "vm_state \<Rightarrow> int \<Rightarrow> (fault + (vm_state \<times> int)) option" where
  "spread_args st args_for_call =
     (if \<not> is_the_empty_list (top_reg st) then
        (case car (heap st) (top_reg st) of
           Inl e \<Rightarrow> Some (Inl e)
         | Inr a \<Rightarrow>
             (case VPUSH st a of
                Inl e \<Rightarrow> Some (Inl e)
              | Inr st1 \<Rightarrow>
                  (case cdr (heap st1) (top_reg st1) of
                     Inl e \<Rightarrow> Some (Inl e)
                   | Inr d \<Rightarrow> spread_args (st1\<lparr>top_reg := d\<rparr>) (args_for_call + 1))))
      else Some (Inr (st, args_for_call)))"

subsection \<open>The opcodes\<close>

text \<open>
  One definition for each case of the \<^verbatim>\<open>switch\<close> of \<^verbatim>\<open>vm_execute\<close>, in the order of the
  source.  Each takes the state after \<^verbatim>\<open>instr = codes[pc++]\<close> and the instruction.
  The opcodes are numbered by the enumeration that \<^verbatim>\<open>opcode_table\<close> generates:
  args 0, argsdot 1, return 2, const 3, fn 4, fjump 5, tjump 6, jump 7, fcallj 8,
  callj 9, lvar 10, save 11, gvar 12, lset 13, gset 14, setcc 15, cc 16, pop 17.
\<close>

text \<open>The top frame is replaced by a new vector when it is too small for \<open>n\<close> slots.\<close>

definition resize_frame :: "vm_state \<Rightarrow> int \<Rightarrow> fault + vm_state" where
  "resize_frame st n =
     bnd (car (heap st) (env st)) (\<lambda>frame.
     bnd (VSIZE (heap st) frame) (\<lambda>sz.
     if n > sz
     then (case make_vector st the_empty_list n of
             (v, st1) \<Rightarrow> bnd (set_car (heap st1) (env st1) v) (\<lambda>h. Inr (st1\<lparr>heap := h\<rparr>)))
     else Inr st))"

definition op_args :: "vm_state \<Rightarrow> addr \<Rightarrow> fault + vm_outcome" where
  "op_args st instr =
     bnd (ARG1 (heap st) instr) (\<lambda>a1.
     bnd (LONG (heap st) a1) (\<lambda>n.
     if n_args st \<noteq> n then VM_ASSERT False st (\<lambda>st. Inr (At_vm_begin st))
     else
       (let num_args = c_int n in
        bnd (resize_frame st num_args) (\<lambda>st2.
        bnd (car (heap st2) (env st2)) (\<lambda>vector.
        bnd (pop_args st2 vector (nat num_args)) (\<lambda>st3.
        Inr (At_vm_begin st3)))))))"

definition op_argsdot :: "vm_state \<Rightarrow> addr \<Rightarrow> fault + vm_outcome" where
  "op_argsdot st instr =
     bnd (ARG1 (heap st) instr) (\<lambda>a1.
     bnd (LONG (heap st) a1) (\<lambda>req_args.
     VM_ASSERT (n_args st \<ge> req_args) st (\<lambda>st.
       (let array_size = req_args + 1 in
        bnd (resize_frame st array_size) (\<lambda>st2.
        bnd (car (heap st2) (env st2)) (\<lambda>vector.
        bnd (vset (heap st2) vector (array_size - 1) the_empty_list) (\<lambda>h.
        bnd (pop_rest (st2\<lparr>heap := h\<rparr>) vector (array_size - 1)
               (nat (n_args st - req_args))) (\<lambda>st3.
        bnd (pop_args st3 vector (nat (c_int (req_args - 1) + 1))) (\<lambda>st4.
        Inr (At_vm_begin st4))))))))))"

definition op_fjump :: "vm_state \<Rightarrow> addr \<Rightarrow> fault + vm_outcome" where
  "op_fjump st instr =
     bnd (VPOP_top st) (\<lambda>st1.
     if is_falselike (top_reg st1)
     then bnd (ARG1 (heap st1) instr) (\<lambda>a1.
          bnd (LONG (heap st1) a1) (\<lambda>k. Inr (At_vm_begin (st1\<lparr>pc := k\<rparr>))))
     else Inr (At_vm_begin st1))"

definition op_tjump :: "vm_state \<Rightarrow> addr \<Rightarrow> fault + vm_outcome" where
  "op_tjump st instr =
     bnd (VPOP_top st) (\<lambda>st1.
     if \<not> is_falselike (top_reg st1)
     then bnd (ARG1 (heap st1) instr) (\<lambda>a1.
          bnd (LONG (heap st1) a1) (\<lambda>k. Inr (At_vm_begin (st1\<lparr>pc := k\<rparr>))))
     else Inr (At_vm_begin st1))"

definition op_jump :: "vm_state \<Rightarrow> addr \<Rightarrow> fault + vm_outcome" where
  "op_jump st instr =
     bnd (ARG1 (heap st) instr) (\<lambda>a1.
     bnd (LONG (heap st) a1) (\<lambda>k. Inr (At_vm_begin (st\<lparr>pc := k\<rparr>))))"

definition op_fn :: "vm_state \<Rightarrow> addr \<Rightarrow> fault + vm_outcome" where
  "op_fn st instr =
     bnd (ARG1 (heap st) instr) (\<lambda>fn_arg.
     bnd (BYTECODE (heap st) fn_arg) (\<lambda>b.
     (case make_compiled_proc st b (env st) of
        (new_fn, st1) \<Rightarrow>
          bnd (PUSH_ROOT st1 Root_new_fn) (\<lambda>st2.
          bnd (VPUSH st2 new_fn) (\<lambda>st3.
          bnd (POP_ROOT st3 Root_new_fn) (\<lambda>st4.
          Inr (At_vm_begin st4)))))))"

text \<open>\<^verbatim>\<open>if(is_meta(top)) { top = METAPROC(top); }\<close>\<close>

definition unwrap_meta :: "vm_state \<Rightarrow> fault + vm_state" where
  "unwrap_meta st =
     (if is_meta (heap st) (top_reg st)
      then bnd (METAPROC (heap st) (top_reg st)) (\<lambda>p. Inr (st\<lparr>top_reg := p\<rparr>))
      else Inr st)"

text \<open>
  The call of a primitive procedure, the same text in \<^verbatim>\<open>fcallj\<close> and \<^verbatim>\<open>callj\<close>.  The
  native function behind a \<^verbatim>\<open>PRIMITIVE_PROC\<close> is not part of the source files: the
  parameter \<open>P\<close> gives, for each primitive, its result and its effect on the state.
\<close>

type_synonym prims = "nat \<Rightarrow> addr \<Rightarrow> int \<Rightarrow> int \<Rightarrow> vm_state \<Rightarrow> fault + (addr \<times> vm_state)"

definition call_primitive :: "prims \<Rightarrow> vm_state \<Rightarrow> int \<Rightarrow> fault + vm_outcome" where
  "call_primitive P st args_for_call =
     (let pfn = top_reg st in
      bnd (PUSH_ROOT st Root_pfn) (\<lambda>st1.
      (case heap st1 pfn of
         PRIMITIVE_PROC p \<Rightarrow>
           bnd (P p (stack st1) args_for_call (stack_top st1) st1) (\<lambda>(res, st2).
           bnd (unwind (st2\<lparr>top_reg := res\<rparr>) (nat args_for_call)) (\<lambda>st3.
           bnd (VPUSH st3 (top_reg st3)) (\<lambda>st4.
           bnd (POP_ROOT st4 Root_pfn) (\<lambda>st5.
           RETURN_OPCODE_INSTRUCTIONS st5))))
       | _ \<Rightarrow> Inl Bad_Access)))"

text \<open>The dispatch of \<^verbatim>\<open>fcallj\<close> on the kind of the callee.\<close>

definition fcallj_dispatch :: "prims \<Rightarrow> vm_state \<Rightarrow> int \<Rightarrow> fault + vm_outcome" where
  "fcallj_dispatch P st args_for_call =
     (if is_compiled_proc (heap st) (top_reg st)
         \<or> is_compiled_syntax_proc (heap st) (top_reg st)
      then
        (let st1 = st\<lparr>fn := top_reg st, pc := 0, n_args := args_for_call\<rparr> in
         bnd (CENV (heap st1) (fn st1)) (\<lambda>e.
         (case make_vector (st1\<lparr>env := e\<rparr>) the_empty_list (n_args st1 + 1) of
            (newframe, st2) \<Rightarrow>
              bnd (PUSH_ROOT st2 Root_newframe) (\<lambda>st3.
              (case cons st3 newframe (env st3) of
                 (c, st4) \<Rightarrow>
                   bnd (POP_ROOT (st4\<lparr>env := c\<rparr>) Root_newframe) (\<lambda>st5.
                   Inr (At_vm_fn_begin st5)))))))
      else if is_primitive_proc (heap st) (top_reg st)
      then call_primitive P st args_for_call
      else VM_ASSERT False st (\<lambda>st. Inr (At_vm_begin st)))"

definition op_fcallj :: "prims \<Rightarrow> vm_state \<Rightarrow> addr \<Rightarrow> fault + vm_outcome" where
  "op_fcallj P st instr =
     bnd (VPOP_top st) (\<lambda>st1.
     bnd (unwrap_meta st1) (\<lambda>st2.
     bnd (ARG1 (heap st2) instr) (\<lambda>a1.
     bnd (LONG (heap st2) a1) (\<lambda>args_for_call.
     fcallj_dispatch P st2 args_for_call))))"

text \<open>The special case of \<^verbatim>\<open>callj\<close> for \<^verbatim>\<open>apply\<close> (\<^verbatim>\<open>args_for_call == -1\<close>): the
  arguments are a list below the function on the stack.\<close>

definition callj_apply :: "vm_state \<Rightarrow> (fault + (vm_state \<times> int)) option" where
  "callj_apply st =
     (let target_fn = top_reg st in
      case bnd (PUSH_ROOT st Root_target_fn) VPOP_top of
        Inl e \<Rightarrow> Some (Inl e)
      | Inr st1 \<Rightarrow>
          (case spread_args st1 0 of
             None \<Rightarrow> None
           | Some (Inl e) \<Rightarrow> Some (Inl e)
           | Some (Inr (st2, args_for_call)) \<Rightarrow>
               Some (bnd (POP_ROOT (st2\<lparr>top_reg := target_fn\<rparr>) Root_target_fn)
                       (\<lambda>st3. Inr (st3, args_for_call)))))"

text \<open>The dispatch of \<^verbatim>\<open>callj\<close> on the kind of the callee, after the special case.\<close>

definition callj_dispatch :: "prims \<Rightarrow> vm_state \<Rightarrow> int \<Rightarrow> fault + vm_outcome" where
  "callj_dispatch P st args_for_call =
     (if is_compiled_proc (heap st) (top_reg st)
         \<or> is_compiled_syntax_proc (heap st) (top_reg st)
      then
        (let st1 = st\<lparr>fn := top_reg st, pc := 0, n_args := args_for_call\<rparr> in
         bnd (CENV (heap st1) (fn st1)) (\<lambda>fn_env.
         bnd (set_cdr (heap st1) (env st1) fn_env) (\<lambda>h.
         Inr (At_vm_fn_begin (st1\<lparr>heap := h\<rparr>)))))
      else if is_primitive_proc (heap st) (top_reg st)
      then call_primitive P st args_for_call
      else VM_ASSERT False st (\<lambda>st. Inr (At_vm_begin st)))"

definition op_callj :: "prims \<Rightarrow> vm_state \<Rightarrow> addr \<Rightarrow> (fault + vm_outcome) option" where
  "op_callj P st instr =
     (case bnd (VPOP_top st) (\<lambda>st1.
           bnd (unwrap_meta st1) (\<lambda>st2.
           bnd (ARG1 (heap st2) instr) (\<lambda>a1.
           bnd (LONG (heap st2) a1) (\<lambda>args_for_call. Inr (st2, args_for_call))))) of
        Inl e \<Rightarrow> Some (Inl e)
      | Inr (st2, args_for_call) \<Rightarrow>
          (case (if args_for_call = - 1 then callj_apply st2
                 else Some (Inr (st2, args_for_call))) of
             None \<Rightarrow> None
           | Some (Inl e) \<Rightarrow> Some (Inl e)
           | Some (Inr (st3, n)) \<Rightarrow> Some (callj_dispatch P st3 n)))"

definition op_lvar :: "vm_state \<Rightarrow> addr \<Rightarrow> fault + vm_outcome" where
  "op_lvar st instr =
     bnd (ARG1 (heap st) instr) (\<lambda>a1.
     bnd (LONG (heap st) a1) (\<lambda>n1.
     bnd (ARG2 (heap st) instr) (\<lambda>a2.
     bnd (LONG (heap st) a2) (\<lambda>n2.
     (let env_num = c_int n1; idx = c_int n2 in
      bnd (walk_env (heap st) (env st) (nat env_num)) (\<lambda>next_e.
      bnd (car (heap st) next_e) (\<lambda>frame.
      bnd (vref (heap st) frame idx) (\<lambda>data.
      bnd (VPUSH st data) (\<lambda>st1.
      Inr (At_vm_begin st1))))))))))"

definition op_lset :: "vm_state \<Rightarrow> addr \<Rightarrow> fault + vm_outcome" where
  "op_lset st instr =
     bnd (ARG1 (heap st) instr) (\<lambda>a1.
     bnd (LONG (heap st) a1) (\<lambda>n1.
     bnd (ARG2 (heap st) instr) (\<lambda>a2.
     bnd (LONG (heap st) a2) (\<lambda>n2.
     (let env_num = c_int n1; idx = c_int n2 in
      bnd (walk_env (heap st) (env st) (nat env_num)) (\<lambda>next_e.
      bnd (car (heap st) next_e) (\<lambda>frame.
      bnd (vref (heap st) (stack st) (stack_top st - 1)) (\<lambda>v.
      bnd (vset (heap st) frame idx v) (\<lambda>h.
      Inr (At_vm_begin (st\<lparr>heap := h\<rparr>)))))))))))"

definition op_gvar :: "vm_state \<Rightarrow> addr \<Rightarrow> fault + vm_outcome" where
  "op_gvar st instr =
     bnd (ARG1 (heap st) instr) (\<lambda>a1.
     bnd (lookup_global_value st a1) (\<lambda>var.
     bnd (PUSH_ROOT st Root_var) (\<lambda>st1.
     bnd (VPUSH st1 var) (\<lambda>st2.
     bnd (POP_ROOT st2 Root_var) (\<lambda>st3.
     Inr (At_vm_begin st3))))))"

definition op_gset :: "vm_state \<Rightarrow> addr \<Rightarrow> fault + vm_outcome" where
  "op_gset st instr =
     bnd (ARG1 (heap st) instr) (\<lambda>var.
     bnd (vref (heap st) (stack st) (stack_top st - 1)) (\<lambda>val.
     Inr (At_vm_begin (define_global_variable st var val))))"

text \<open>\<^verbatim>\<open>setcc\<close>: \<^verbatim>\<open>VPOP(new_stack, stack, stack_top); VPOP(new_stack_top, stack,
  stack_top); stack = car(stack); stack_top = LONG(new_stack_top);\<close>\<close>

definition op_setcc :: "vm_state \<Rightarrow> addr \<Rightarrow> fault + vm_outcome" where
  "op_setcc st instr =
     bnd (VPOP st) (\<lambda>(new_stack, st1).
     bnd (VPOP st1) (\<lambda>(new_stack_top, st2).
     bnd (car (heap st2) (stack st2)) (\<lambda>s.
     bnd (LONG (heap st2) new_stack_top) (\<lambda>t.
     Inr (At_vm_begin (st2\<lparr>stack := s, stack_top := t\<rparr>))))))"

text \<open>The copy loop of \<^verbatim>\<open>cc\<close>:
  \<^verbatim>\<open>for(idx = 0; idx < stack_top; ++idx) VARRAY(new_stack)[idx] = VARRAY(stack)[idx];\<close>\<close>

fun copy_stack ::
  "(addr \<Rightarrow> object_data) \<Rightarrow> addr \<Rightarrow> addr \<Rightarrow> int \<Rightarrow> nat \<Rightarrow> fault + (addr \<Rightarrow> object_data)" where
  "copy_stack h new_stack stack_v idx 0 = Inr h"
| "copy_stack h new_stack stack_v idx (Suc k) =
     (case vref h stack_v idx of
        Inl e \<Rightarrow> Inl e
      | Inr v \<Rightarrow>
          (case vset h new_stack idx v of
             Inl e \<Rightarrow> Inl e
           | Inr h1 \<Rightarrow> copy_stack h1 new_stack stack_v (idx + 1) k))"

definition op_cc :: "vm_state \<Rightarrow> addr \<Rightarrow> fault + vm_outcome" where
  "op_cc st instr =
     (case make_vector st the_empty_list 2 of
        (cc_env, st1) \<Rightarrow>
          bnd (PUSH_ROOT st1 Root_cc_env) (\<lambda>st2.
          bnd (VSIZE (heap st2) (stack st2)) (\<lambda>sz.
          (case make_vector st2 the_empty_list sz of
             (new_stack, st3) \<Rightarrow>
               bnd (PUSH_ROOT st3 Root_new_stack) (\<lambda>st4.
               bnd (copy_stack (heap st4) new_stack (stack st4) 0 (nat (stack_top st4))) (\<lambda>h1.
               bnd (vset h1 cc_env 0 new_stack) (\<lambda>h2.
               (case make_fixnum (st4\<lparr>heap := h2\<rparr>) (stack_top st4) of
                  (num, st5) \<Rightarrow>
                    bnd (vset (heap st5) cc_env 1 num) (\<lambda>h3.
                    bnd (POP_ROOT (st5\<lparr>heap := h3\<rparr>) Root_new_stack) (\<lambda>st6.
                    (case cons st6 cc_env the_empty_list of
                       (cc_env2, st7) \<Rightarrow>
                         (case make_compiled_proc st7 cc_bytecode cc_env2 of
                            (cc_fn, st8) \<Rightarrow>
                              bnd (POP_ROOT st8 Root_cc_env) (\<lambda>st9.
                              bnd (VPUSH st9 cc_fn) (\<lambda>st10.
                              Inr (At_vm_begin st10)))))))))))))))"

definition op_pop :: "vm_state \<Rightarrow> addr \<Rightarrow> fault + vm_outcome" where
  "op_pop st instr = bnd (VPOP_top st) (\<lambda>st1. Inr (At_vm_begin st1))"

definition op_save :: "vm_state \<Rightarrow> addr \<Rightarrow> fault + vm_outcome" where
  "op_save st instr =
     (case cons st (fn st) (env st) of
        (ret_addr, st1) \<Rightarrow>
          bnd (PUSH_ROOT st1 Root_ret_addr) (\<lambda>st2.
          bnd (ARG1 (heap st2) instr) (\<lambda>a1.
          (case cons st2 a1 ret_addr of
             (ret_addr2, st3) \<Rightarrow>
               bnd (VPUSH st3 ret_addr2) (\<lambda>st4.
               bnd (POP_ROOT st4 Root_ret_addr) (\<lambda>st5.
               Inr (At_vm_begin st5)))))))"

definition op_return :: "vm_state \<Rightarrow> addr \<Rightarrow> fault + vm_outcome" where
  "op_return st instr = RETURN_OPCODE_INSTRUCTIONS st"

definition op_const :: "vm_state \<Rightarrow> addr \<Rightarrow> fault + vm_outcome" where
  "op_const st instr =
     bnd (ARG1 (heap st) instr) (\<lambda>a1.
     bnd (VPUSH st a1) (\<lambda>st1. Inr (At_vm_begin st1)))"

text \<open>The \<^verbatim>\<open>default\<close> case: \<^verbatim>\<open>VM_ASSERT(0, "strange opcode")\<close>.\<close>

definition op_default :: "vm_state \<Rightarrow> addr \<Rightarrow> fault + vm_outcome" where
  "op_default st instr = VM_ASSERT False st (\<lambda>st. Inr (At_vm_begin st))"

subsection \<open>Dispatch\<close>

text \<open>\<^verbatim>\<open>switch (CHAR(opcode))\<close>.\<close>

definition dispatch :: "prims \<Rightarrow> int \<Rightarrow> vm_state \<Rightarrow> addr \<Rightarrow> (fault + vm_outcome) option" where
  "dispatch P c st instr =
     (if c = 0 then Some (op_args st instr)
      else if c = 1 then Some (op_argsdot st instr)
      else if c = 2 then Some (op_return st instr)
      else if c = 3 then Some (op_const st instr)
      else if c = 4 then Some (op_fn st instr)
      else if c = 5 then Some (op_fjump st instr)
      else if c = 6 then Some (op_tjump st instr)
      else if c = 7 then Some (op_jump st instr)
      else if c = 8 then Some (op_fcallj P st instr)
      else if c = 9 then op_callj P st instr
      else if c = 10 then Some (op_lvar st instr)
      else if c = 11 then Some (op_save st instr)
      else if c = 12 then Some (op_gvar st instr)
      else if c = 13 then Some (op_lset st instr)
      else if c = 14 then Some (op_gset st instr)
      else if c = 15 then Some (op_setcc st instr)
      else if c = 16 then Some (op_cc st instr)
      else if c = 17 then Some (op_pop st instr)
      else Some (op_default st instr))"

text \<open>
  \<^verbatim>\<open>vm_begin\<close>: the check of the program counter, the fetch \<^verbatim>\<open>instr = codes[pc++]\<close> and
  the dispatch of one instruction (\<open>fetch_dispatch\<close>).  The check is
  \<^verbatim>\<open>if(pc >= num_codes) { VM_ASSERT(false, "pc flew off the end of memory"); }\<close>, and
  \<^verbatim>\<open>false\<close> is the false object (the one that \<^verbatim>\<open>symbol_to_code\<close> returns), a pointer that
  is not null: the test of the assertion is true, the assertion never fires, and with the
  program counter at or past the end the fetch reads beyond the bytecode vector.
\<close>

definition fetch_dispatch :: "prims \<Rightarrow> vm_state \<Rightarrow> (fault + vm_outcome) option" where
  "fetch_dispatch P st =
     (case bnd (vref (heap st) (code_array st) (pc st)) (\<lambda>instr.
           bnd (OPCODE (heap st) instr) (\<lambda>opcode.
           bnd (CHAR_obj (heap st) opcode) (\<lambda>c. Inr (instr, c)))) of
        Inl e \<Rightarrow> Some (Inl e)
      | Inr (instr, c) \<Rightarrow> dispatch P c (st\<lparr>pc := pc st + 1\<rparr>) instr)"

definition vm_begin :: "prims \<Rightarrow> vm_state \<Rightarrow> (fault + vm_outcome) option" where
  "vm_begin P st =
     (case (if pc st \<ge> num_codes st then VM_ASSERT True st (\<lambda>st. Inr (At_vm_begin st))
            else Inr (At_vm_begin st)) of
        Inl e \<Rightarrow> Some (Inl e)
      | Inr (At_vm_begin st1) \<Rightarrow> fetch_dispatch P st1
      | Inr out \<Rightarrow> Some (Inr out))"




subsection \<open>Auxiliary notions for the machine\<close>



text \<open>A proper list in the object memory: the cells of \<open>xs\<close> chained through their
  \<^verbatim>\<open>cdr\<close> up to the empty list.\<close>

fun is_list :: "(addr \<Rightarrow> object_data) \<Rightarrow> addr \<Rightarrow> addr list \<Rightarrow> bool" where
  "is_list h a [] \<longleftrightarrow> a = the_empty_list"
| "is_list h a (x # xs) \<longleftrightarrow>
     a \<noteq> the_empty_list \<and> (case h a of PAIR y d \<Rightarrow> y = x \<and> is_list h d xs | _ \<Rightarrow> False)"

text \<open>A set of primitives for the concrete runs below, none of which calls one.\<close>

definition no_prims :: prims where
  "no_prims p s n t st = Inl External_Error"

text \<open>
  Concrete object memories for the runs below.  Cells 0 to 4 are the singletons; 10 is an
  empty bytecode vector and 11 a compiled procedure over it; 12 is a value stack of four
  slots; 13 is an instruction whose opcode character is 42 and whose operand is the
  fixnum 2, and 23 one whose operand is the fixnum -1; 17 is an environment of one frame,
  the vector 18; 22 is the list of the one element 16; 26 is a value stack that holds the
  list 22 and, on top, the procedure 11; 30 is a value stack that holds the fixnum 31 and, on top, the captured
  stack 32, as \<^verbatim>\<open>cc_bytecode\<close> leaves them for \<^verbatim>\<open>setcc\<close>; 37 is a value stack that
  holds the four fixnums 33 to 36.
\<close>

definition ex_heap :: "addr \<Rightarrow> object_data" where
  "ex_heap = (\<lambda>a. THE_EMPTY_LIST)
     (1 := BOOLEAN False, 2 := VECTOR [], 3 := SYMBOL ''error'', 4 := VECTOR [],
      10 := VECTOR [], 11 := COMPILED_PROC 10 0, 12 := VECTOR [0, 0, 0, 0],
      13 := PAIR 14 15, 14 := CHARACTER 42, 15 := PAIR 16 0, 16 := FIXNUM 2,
      17 := PAIR 18 0, 18 := VECTOR [0], 22 := PAIR 16 0,
      23 := PAIR 14 24, 24 := PAIR 25 0, 25 := FIXNUM (- 1), 26 := VECTOR [22, 11, 0, 0],
      30 := VECTOR [0, 31, 32, 0], 31 := FIXNUM 1, 32 := VECTOR [0, 0, 0, 0],
      33 := FIXNUM 1, 34 := FIXNUM 2, 35 := FIXNUM 3, 36 := FIXNUM 4,
      37 := VECTOR [33, 34, 35, 36, 0])"

text \<open>The process before a call of \<^verbatim>\<open>vm_execute\<close>: nothing pinned yet.\<close>

definition ex_world :: vm_state where
  "ex_world = \<lparr>heap = ex_heap, next_cell = 40,
      vm_roots = \<lparr>objs = [None, None, None, None], top_ss = 0, size_ss = 4\<rparr>,
      globals = Map.empty, fn = 0, env = 0, top_reg = 0, stack = 0, stack_top = 0,
      n_args = 0, initial_top = 0, pc = 0, code_array = 0, num_codes = 0\<rparr>"



text \<open>An activation with its three pins in place, at the end of an empty bytecode vector,
  with one argument, whose \<^verbatim>\<open>fn\<close> and \<^verbatim>\<open>top\<close> are the empty list.\<close>

definition ex_bad :: vm_state where
  "ex_bad = ex_world\<lparr>
      vm_roots := \<lparr>objs = [Some Root_fn, Some Root_env, Some Root_top, None],
                   top_ss = 3, size_ss = 4\<rparr>,
      stack := 12, n_args := 1\<rparr>"

text \<open>An activation about to execute \<^verbatim>\<open>setcc\<close> on the stack 30.\<close>

definition ex_setcc :: vm_state where
  "ex_setcc = ex_bad\<lparr>stack := 30, stack_top := 3\<rparr>"

text \<open>The procedure that a call invokes for the object \<open>c\<close> popped from the stack: the
  procedure inside a \<^verbatim>\<open>META_PROC\<close>, or \<open>c\<close> itself.\<close>

definition callee :: "(addr \<Rightarrow> object_data) \<Rightarrow> addr \<Rightarrow> addr" where
  "callee h c = (case h c of META_PROC p m \<Rightarrow> p | _ \<Rightarrow> c)"

text \<open>The operand of an instruction is the fixnum \<open>n\<close>.\<close>

definition operand :: "(addr \<Rightarrow> object_data) \<Rightarrow> addr \<Rightarrow> int \<Rightarrow> bool" where
  "operand h instr n \<longleftrightarrow> bnd (ARG1 h instr) (LONG h) = Inr n"

text \<open>The value stack is a vector with contents \<open>xs\<close> whose top entry is \<open>c\<close>.\<close>

definition stack_holds :: "vm_state \<Rightarrow> addr list \<Rightarrow> addr \<Rightarrow> bool" where
  "stack_holds st xs c \<longleftrightarrow>
     heap st (stack st) = VECTOR xs \<and> 0 < stack_top st \<and> stack_top st \<le> int (length xs)
     \<and> c = xs ! nat (stack_top st - 1)"

text \<open>The object \<open>f\<close> is a compiled procedure, or a compiled syntax procedure, with
  captured environment \<open>e\<close>.\<close>

definition compiled_with_env :: "(addr \<Rightarrow> object_data) \<Rightarrow> addr \<Rightarrow> addr \<Rightarrow> bool" where
  "compiled_with_env h f e \<longleftrightarrow>
     (case h f of COMPILED_PROC b e' \<Rightarrow> e' = e | COMPILED_SYNTAX_PROC b e' \<Rightarrow> e' = e
      | _ \<Rightarrow> False)"

text \<open>An activation about to execute a call: the environment is 17, the value stack is
  26, with the procedure 11 on top and the list 22 below it.\<close>

definition ex_call :: vm_state where
  "ex_call = ex_bad\<lparr>env := 17, stack := 26, stack_top := 2\<rparr>"

text \<open>A proper list all of whose cells lie below the address \<open>b\<close>.\<close>

fun list_below :: "addr \<Rightarrow> (addr \<Rightarrow> object_data) \<Rightarrow> addr \<Rightarrow> addr list \<Rightarrow> bool" where
  "list_below b h a [] \<longleftrightarrow> a = the_empty_list"
| "list_below b h a (x # xs) \<longleftrightarrow>
     a \<noteq> the_empty_list \<and> a < b
     \<and> (case h a of PAIR y d \<Rightarrow> y = x \<and> list_below b h d xs | _ \<Rightarrow> False)"

text \<open>The arguments of a call: the \<^verbatim>\<open>n_args\<close> entries on top of the value stack, the
  leftmost argument first (it was pushed first).\<close>

definition stack_args :: "vm_state \<Rightarrow> addr list \<Rightarrow> addr list" where
  "stack_args st xs =
     drop (nat (stack_top st - n_args st)) (take (nat (stack_top st)) xs)"

text \<open>An activation about to execute \<^verbatim>\<open>argsdot\<close> with the four arguments 33 to 36 on
  the value stack 37 and the one-slot frame 18 on top of the environment 17.\<close>

definition ex_argsdot :: vm_state where
  "ex_argsdot = ex_bad\<lparr>env := 17, stack := 37, stack_top := 4, n_args := 4\<rparr>"

section \<open>The heap and the collector (gc.c)\<close>

text \<open>
  Modelled from the spec: \<^verbatim>\<open>struct object\<close> of \<^verbatim>\<open>types.h\<close>, as far as the collector
  uses it: the colour byte, the two list pointers \<^verbatim>\<open>prev\<close> and \<^verbatim>\<open>next\<close> (\<open>None\<close> is \<^verbatim>\<open>NULL\<close>) and the tagged
  payload.  The colour is a \<^verbatim>\<open>char\<close>; it is only ever incremented and compared.
\<close>

record object =
  color :: "8 word"
  prev :: "addr option"
  next_obj :: "addr option"
  data :: object_data

record doubly_linked_list =
  head :: "addr option"
  tail :: "addr option"
  num_objects :: int

text \<open>What \<^verbatim>\<open>finalize_object\<close> does for an object, by its type: \<^verbatim>\<open>FREE\<close> of the
  string buffer or of the vector array (\<^verbatim>\<open>FREE\<close> does nothing in this allocator), or
  \<^verbatim>\<open>htb_destroy\<close> of the hash table, a function of \<^verbatim>\<open>hashtab.h\<close>.\<close>

datatype finalization = Free_string | Free_vector | Destroy_hashtable | No_finalization

text \<open>
  The globals of gc.c.  \<open>cells\<close> is the memory of the object cells.  The root stack holds
  addresses of variables of type \<^verbatim>\<open>object *\<close>; \<open>root_vars\<close> is the memory of those
  variables.  \<open>finalize_log\<close> records the calls of \<^verbatim>\<open>finalize_object\<close> in their order.
  \<open>pool_next\<close> is the first cell address that \<^verbatim>\<open>MALLOC\<close> has not handed out.
  Modelled from the spec: \<^verbatim>\<open>pool_alloc\<close> of \<^verbatim>\<open>pool.h\<close> hands out fresh memory; the
  pool is taken to be large enough, so that the \<^verbatim>\<open>exit(1)\<close> of \<^verbatim>\<open>MALLOC\<close> does not occur.
\<close>

record gc_state =
  cells :: "addr \<Rightarrow> object"
  Active_Heap_Objects :: doubly_linked_list
  Old_Heap_Objects :: doubly_linked_list
  Next_Free_Object :: "addr option"
  Root_Objects :: "nat stack_set"
  root_vars :: "nat \<Rightarrow> addr option"
  Finalizable_Objects :: "addr stack_set"
  Finalizable_Objects_Next :: "addr stack_set"
  current_color :: "8 word"
  Next_Heap_Extension :: int
  pool_next :: addr
  finalize_log :: "(addr \<times> finalization) list"

text \<open>
  \<^verbatim>\<open>move_object_to_head(obj, src, dest)\<close>, on the cell memory and the two list headers:
  the unlinking from \<^verbatim>\<open>src\<close>, statement by statement, then the linking at the head of
  \<^verbatim>\<open>dest\<close>.
\<close>

definition unlink_prev ::
  "addr \<Rightarrow> (addr \<Rightarrow> object) \<times> doubly_linked_list \<Rightarrow> (addr \<Rightarrow> object) \<times> doubly_linked_list" where
  "unlink_prev obj = (\<lambda>(h, src).
     (case prev (h obj) of
        None \<Rightarrow> (h, src\<lparr>head := next_obj (h obj)\<rparr>)
      | Some p \<Rightarrow> (h(p := (h p)\<lparr>next_obj := next_obj (h obj)\<rparr>), src)))"

definition unlink_next ::
  "addr \<Rightarrow> (addr \<Rightarrow> object) \<times> doubly_linked_list \<Rightarrow> (addr \<Rightarrow> object) \<times> doubly_linked_list" where
  "unlink_next obj = (\<lambda>(h, src).
     (case next_obj (h obj) of
        None \<Rightarrow> (h, src\<lparr>tail := prev (h obj)\<rparr>)
      | Some n \<Rightarrow> (h(n := (h n)\<lparr>prev := prev (h obj)\<rparr>), src)))"

definition link_head ::
  "addr \<Rightarrow> (addr \<Rightarrow> object) \<times> doubly_linked_list \<Rightarrow> (addr \<Rightarrow> object) \<times> doubly_linked_list" where
  "link_head obj = (\<lambda>(h, dest).
     (case head dest of
        None \<Rightarrow> (h(obj := (h obj)\<lparr>next_obj := None, prev := None\<rparr>),
                 dest\<lparr>head := Some obj, tail := Some obj\<rparr>)
      | Some dh \<Rightarrow>
          (let h1 = h(obj := (h obj)\<lparr>prev := None, next_obj := Some dh\<rparr>);
               h2 = h1(dh := (h1 dh)\<lparr>prev := Some obj\<rparr>)
           in (h2, dest\<lparr>head := Some obj\<rparr>))))"

definition move_object_to_head ::
  "addr \<Rightarrow> (addr \<Rightarrow> object) \<times> doubly_linked_list \<times> doubly_linked_list
     \<Rightarrow> (addr \<Rightarrow> object) \<times> doubly_linked_list \<times> doubly_linked_list" where
  "move_object_to_head obj = (\<lambda>(h, src, dest).
     (case unlink_next obj (unlink_prev obj (h, src)) of
        (h1, src1) \<Rightarrow>
          (case link_head obj (h1, dest) of
             (h2, dest1) \<Rightarrow>
               (h2, src1\<lparr>num_objects := num_objects src1 - 1\<rparr>,
                    dest1\<lparr>num_objects := num_objects dest1 + 1\<rparr>))))"

text \<open>\<^verbatim>\<open>append_to_tail(dest, src)\<close>.\<close>

definition append_to_tail ::
  "(addr \<Rightarrow> object) \<times> doubly_linked_list \<times> doubly_linked_list
     \<Rightarrow> (addr \<Rightarrow> object) \<times> doubly_linked_list \<times> doubly_linked_list" where
  "append_to_tail = (\<lambda>(h, dest, src).
     (case tail dest of
        None \<Rightarrow>
          (h, dest\<lparr>head := head src, tail := tail src,
                   num_objects := num_objects dest + num_objects src\<rparr>,
              src\<lparr>head := None, tail := None, num_objects := 0\<rparr>)
      | Some dt \<Rightarrow>
          (case head src of
             None \<Rightarrow> (h, dest, src)
           | Some sh \<Rightarrow>
               (let h1 = h(dt := (h dt)\<lparr>next_obj := Some sh\<rparr>);
                    h2 = h1(sh := (h1 sh)\<lparr>prev := Some dt\<rparr>)
                in (h2, dest\<lparr>tail := tail src,
                              num_objects := num_objects dest + num_objects src\<rparr>,
                        src\<lparr>head := None, tail := None, num_objects := 0\<rparr>)))))"

text \<open>The object references of a payload, in the order in which the \<^verbatim>\<open>switch\<close> of
  \<^verbatim>\<open>move_reachable\<close> visits them.  Modelled from the spec: the iterator of
  \<^verbatim>\<open>hashtab.h\<close> yields every key with its value.\<close>

fun fields :: "object_data \<Rightarrow> addr list" where
  "fields (PAIR a d) = [a, d]"
| "fields (COMPOUND_PROC e p b) = [e, p, b]"
| "fields (SYNTAX_PROC e p b) = [e, p, b]"
| "fields (VECTOR xs) = xs"
| "fields (COMPILED_PROC b e) = [b, e]"
| "fields (COMPILED_SYNTAX_PROC b e) = [b, e]"
| "fields (META_PROC p m) = [p, m]"
| "fields (HASH_TABLE kvs) = concat (map (\<lambda>(k, v). [k, v]) kvs)"
| "fields _ = []"

text \<open>The move of an object from \<^verbatim>\<open>Active_Heap_Objects\<close> to the head of the to-set, which
  is \<^verbatim>\<open>Old_Heap_Objects\<close> in the one call of \<^verbatim>\<open>move_reachable\<close>.\<close>

definition move_to_old :: "addr \<Rightarrow> gc_state \<Rightarrow> gc_state" where
  "move_to_old obj st =
     (case move_object_to_head obj (cells st, Active_Heap_Objects st, Old_Heap_Objects st) of
        (h, src, dest) \<Rightarrow>
          st\<lparr>cells := h, Active_Heap_Objects := src, Old_Heap_Objects := dest\<rparr>)"

definition set_color :: "addr \<Rightarrow> gc_state \<Rightarrow> gc_state" where
  "set_color obj st =
     st\<lparr>cells := (cells st)(obj := (cells st obj)\<lparr>color := current_color st\<rparr>)\<rparr>"

text \<open>The macro \<^verbatim>\<open>maybe_move(obj)\<close>.\<close>

definition maybe_move :: "addr \<Rightarrow> gc_state \<Rightarrow> gc_state" where
  "maybe_move temp st =
     (if color (cells st temp) \<noteq> current_color st
      then set_color temp (move_to_old temp st)
      else st)"

text \<open>The \<^verbatim>\<open>switch\<close> on the type of \<^verbatim>\<open>scan_iter\<close>: \<^verbatim>\<open>maybe_move\<close> of each reference of
  the payload in turn.  The moves do not change any payload.\<close>

definition scan_fields :: "addr \<Rightarrow> gc_state \<Rightarrow> gc_state" where
  "scan_fields scan_iter st = fold maybe_move (fields (data (cells st scan_iter))) st"

text \<open>The loop \<^verbatim>\<open>while(scan_iter != NULL) { ...; scan_iter = scan_iter->prev; }\<close>.  It
  follows the \<^verbatim>\<open>prev\<close> pointers for as long as they go on: \<open>None\<close> is a run that does
  not end.\<close>

partial_function (option) scan_loop :: "gc_state \<Rightarrow> addr option \<Rightarrow> gc_state option" where
  "scan_loop st scan_iter =
     (case scan_iter of
        None \<Rightarrow> Some st
      | Some a \<Rightarrow> (let st1 = scan_fields a st in scan_loop st1 (prev (cells st1 a))))"

definition move_reachable :: "addr option \<Rightarrow> gc_state \<Rightarrow> gc_state option" where
  "move_reachable root st =
     (case root of
        None \<Rightarrow> Some st
      | Some r \<Rightarrow>
          if color (cells st r) = current_color st then Some st
          else (let st1 = move_to_old r (set_color r st)
                in scan_loop st1 (head (Old_Heap_Objects st1))))"

definition finalization_of :: "object_data \<Rightarrow> finalization" where
  "finalization_of d =
     (case d of STRING s \<Rightarrow> Free_string | VECTOR xs \<Rightarrow> Free_vector
      | HASH_TABLE kvs \<Rightarrow> Destroy_hashtable | _ \<Rightarrow> No_finalization)"

definition finalize_object :: "addr \<Rightarrow> gc_state \<Rightarrow> gc_state" where
  "finalize_object obj st =
     st\<lparr>finalize_log := finalize_log st @ [(obj, finalization_of (data (cells st obj)))]\<rparr>"

text \<open>The loop of \<^verbatim>\<open>baker_collect\<close> over the slots of the root stack below \<^verbatim>\<open>top\<close>:
  \<^verbatim>\<open>next = Root_Objects->objs[ii]; move_reachable(*next, &Old_Heap_Objects);\<close>\<close>

fun mark_roots :: "nat option list \<Rightarrow> gc_state \<Rightarrow> (fault + gc_state) option" where
  "mark_roots [] st = Some (Inr st)"
| "mark_roots (slot # slots) st =
     (case slot of
        None \<Rightarrow> Some (Inl Bad_Access)
      | Some rv \<Rightarrow>
          (case move_reachable (root_vars st rv) st of
             None \<Rightarrow> None
           | Some st1 \<Rightarrow> mark_roots slots st1))"

text \<open>The loop over the slots of \<^verbatim>\<open>Finalizable_Objects\<close> below \<^verbatim>\<open>top\<close>: an object
  whose colour is not the current one is finalized, the others are pushed on
  \<^verbatim>\<open>Finalizable_Objects_Next\<close>.\<close>

fun finalize_loop :: "addr option list \<Rightarrow> gc_state \<Rightarrow> fault + gc_state" where
  "finalize_loop [] st = Inr st"
| "finalize_loop (slot # slots) st =
     (case slot of
        None \<Rightarrow> Inl Bad_Access
      | Some obj \<Rightarrow>
          if color (cells st obj) \<noteq> current_color st
          then finalize_loop slots (finalize_object obj st)
          else (case stack_set_push (Finalizable_Objects_Next st) obj of
                  Inl e \<Rightarrow> Inl e
                | Inr ss \<Rightarrow> finalize_loop slots (st\<lparr>Finalizable_Objects_Next := ss\<rparr>)))"

text \<open>The slots that a loop \<^verbatim>\<open>for(i = 0; i < ss->top; ++i)\<close> reads of a stack set; a
  \<^verbatim>\<open>top\<close> beyond the array is a read outside it.\<close>

definition slots_below_top :: "'a stack_set \<Rightarrow> fault + 'a option list" where
  "slots_below_top ss =
     (if top_ss ss \<le> int (length (objs ss)) then Inr (take (nat (top_ss ss)) (objs ss))
      else Inl Out_Of_Bounds)"

text \<open>\<^verbatim>\<open>baker_collect\<close>.  The result is the returned count and the new state.\<close>

definition baker_collect :: "gc_state \<Rightarrow> (fault + (int \<times> gc_state)) option" where
  "baker_collect st =
     (case append_to_tail (cells st, Active_Heap_Objects st, Old_Heap_Objects st) of
        (h, act, old) \<Rightarrow>
          (let st1 = st\<lparr>cells := h, Active_Heap_Objects := act, Old_Heap_Objects := old,
                        current_color := current_color st + 1\<rparr>
           in case slots_below_top (Root_Objects st1) of
                Inl e \<Rightarrow> Some (Inl e)
              | Inr roots \<Rightarrow>
                  (case mark_roots roots st1 of
                     None \<Rightarrow> None
                   | Some (Inl e) \<Rightarrow> Some (Inl e)
                   | Some (Inr st2) \<Rightarrow>
                       Some (bnd (slots_below_top (Finalizable_Objects st2)) (\<lambda>fin.
                             bnd (finalize_loop fin st2) (\<lambda>st3.
                             (let st4 = st3\<lparr>Finalizable_Objects := Finalizable_Objects_Next st3,
                                    Finalizable_Objects_Next :=
                                      clear_stack_set (Finalizable_Objects st3),
                                    current_color := current_color st3 + 1\<rparr>;
                                  st5 = st4\<lparr>Next_Free_Object := head (Active_Heap_Objects st4)\<rparr>
                              in Inr (num_objects (Active_Heap_Objects st5), st5))))))))"



text \<open>The quotient of two \<^verbatim>\<open>long\<close> values in C, which truncates towards zero.\<close>

definition c_div :: "int \<Rightarrow> int \<Rightarrow> int" where
  "c_div a b = sgn a * sgn b * (\<bar>a\<bar> div \<bar>b\<bar>)"




subsection \<open>Auxiliary notions for the heap\<close>

text \<open>The neighbours of an element in a list without repetitions, and the two ends of a
  list.\<close>

fun succ_in :: "'a list \<Rightarrow> 'a \<Rightarrow> 'a option" where
  "succ_in (y # z # zs) x = (if x = y then Some z else succ_in (z # zs) x)"
| "succ_in _ x = None"

fun pred_in :: "'a list \<Rightarrow> 'a \<Rightarrow> 'a option" where
  "pred_in (y # z # zs) x = (if x = z then Some y else pred_in (z # zs) x)"
| "pred_in _ x = None"

definition first_of :: "'a list \<Rightarrow> 'a option" where
  "first_of xs = (case xs of [] \<Rightarrow> None | x # _ \<Rightarrow> Some x)"

definition last_of :: "'a list \<Rightarrow> 'a option" where
  "last_of xs = (if xs = [] then None else Some (last xs))"

text \<open>
  The invariant of a list header of section 3.3 of the specification: the header \<open>L\<close>
  and the pointers of the cells represent the list \<open>xs\<close> of distinct cells; \<^verbatim>\<open>head\<close> and
  \<^verbatim>\<open>tail\<close> are its ends, \<^verbatim>\<open>num_objects\<close> is its length, and \<^verbatim>\<open>next\<close> and \<^verbatim>\<open>prev\<close> of
  each cell are its neighbours (\<^verbatim>\<open>NULL\<close> at the ends).
\<close>

definition dll_ok :: "(addr \<Rightarrow> object) \<Rightarrow> doubly_linked_list \<Rightarrow> addr list \<Rightarrow> bool" where
  "dll_ok h L xs \<longleftrightarrow>
     distinct xs \<and> head L = first_of xs \<and> tail L = last_of xs
     \<and> num_objects L = int (length xs)
     \<and> (\<forall>x \<in> set xs. next_obj (h x) = succ_in xs x \<and> prev (h x) = pred_in xs x)"

text \<open>The two heap lists of a state represent the lists \<open>A\<close> (active) and \<open>Os\<close> (old), which
  share no cell.\<close>

definition heap_lists :: "gc_state \<Rightarrow> addr list \<Rightarrow> addr list \<Rightarrow> bool" where
  "heap_lists st A Os \<longleftrightarrow>
     dll_ok (cells st) (Active_Heap_Objects st) A \<and> dll_ok (cells st) (Old_Heap_Objects st) Os
     \<and> set A \<inter> set Os = {}"

text \<open>The objects reachable from a set of objects through the references of the payloads,
  that is through the field scan of \<^verbatim>\<open>move_reachable\<close>.\<close>

inductive_set reach :: "(addr \<Rightarrow> addr list) \<Rightarrow> addr set \<Rightarrow> addr set"
  for fs :: "addr \<Rightarrow> addr list" and R :: "addr set" where
  root: "r \<in> R \<Longrightarrow> r \<in> reach fs R"
| step: "a \<in> reach fs R \<Longrightarrow> b \<in> set (fs a) \<Longrightarrow> b \<in> reach fs R"

definition refs :: "gc_state \<Rightarrow> addr \<Rightarrow> addr list" where
  "refs st a = fields (data (cells st a))"

text \<open>The objects referenced through the root stack: the values of the variables whose
  addresses are on it.\<close>

definition root_set :: "gc_state \<Rightarrow> addr set" where
  "root_set st = {a. \<exists>rv. Some rv \<in> set (live (Root_Objects st)) \<and> root_vars st rv = Some a}"

definition reachable :: "gc_state \<Rightarrow> addr set" where
  "reachable st = reach (refs st) (root_set st)"

text \<open>What the marking of objects of a set \<open>RS\<close> leaves alone: everything but the list
  pointers of the cells, the colours of the cells of \<open>RS\<close> and the two list headers.\<close>

definition same_rest :: "addr set \<Rightarrow> gc_state \<Rightarrow> gc_state \<Rightarrow> bool" where
  "same_rest RS st st' \<longleftrightarrow>
     Root_Objects st' = Root_Objects st \<and> root_vars st' = root_vars st
     \<and> Finalizable_Objects st' = Finalizable_Objects st
     \<and> Finalizable_Objects_Next st' = Finalizable_Objects_Next st
     \<and> current_color st' = current_color st
     \<and> Next_Heap_Extension st' = Next_Heap_Extension st
     \<and> Next_Free_Object st' = Next_Free_Object st
     \<and> pool_next st' = pool_next st \<and> finalize_log st' = finalize_log st
     \<and> (\<forall>a. data (cells st' a) = data (cells st a))
     \<and> (\<forall>a. a \<notin> RS \<longrightarrow> color (cells st' a) = color (cells st a))"

text \<open>
  The invariant of the marking phase, for a set \<open>RS\<close> of objects closed under the
  references: the lists are well formed, every object of \<open>RS\<close> is on one of them, the old
  list holds only objects of \<open>RS\<close>, all of them in the current colour, and no object of
  \<open>RS\<close> on the active list has the current colour.
\<close>

definition mark_inv :: "addr set \<Rightarrow> gc_state \<Rightarrow> addr list \<Rightarrow> addr list \<Rightarrow> bool" where
  "mark_inv RS st A Os \<longleftrightarrow>
     heap_lists st A Os \<and> RS \<subseteq> set A \<union> set Os \<and> set Os \<subseteq> RS
     \<and> (\<forall>x \<in> set Os. color (cells st x) = current_color st)
     \<and> (\<forall>x \<in> RS \<inter> set A. color (cells st x) \<noteq> current_color st)
     \<and> (\<forall>a \<in> RS. set (refs st a) \<subseteq> RS)"

text \<open>Every object of the list \<open>B\<close> has all its references on the list \<open>Os\<close>.\<close>

definition scanned :: "gc_state \<Rightarrow> addr list \<Rightarrow> addr list \<Rightarrow> bool" where
  "scanned st B Os \<longleftrightarrow> (\<forall>x \<in> set B. set (refs st x) \<subseteq> set Os)"


text \<open>
  A stack set on which every push succeeds (\<open>stack_set_wf\<close>): \<^verbatim>\<open>top\<close> lies within the
  array, \<^verbatim>\<open>size\<close> is the length of the array and is positive.  A stack set whose slots
  below \<^verbatim>\<open>top\<close> have all been written (\<open>filled\<close>), and the values of those slots, bottom
  first (\<open>entries_ss\<close>).
\<close>

definition stack_set_wf :: "'a stack_set \<Rightarrow> bool" where
  "stack_set_wf ss \<longleftrightarrow>
     0 \<le> top_ss ss \<and> top_ss ss \<le> size_ss ss \<and> int (length (objs ss)) = size_ss ss
     \<and> 0 < size_ss ss"

definition filled :: "'a stack_set \<Rightarrow> bool" where
  "filled ss \<longleftrightarrow> top_ss ss \<le> int (length (objs ss)) \<and> None \<notin> set (live ss)"

definition entries_ss :: "'a stack_set \<Rightarrow> 'a list" where
  "entries_ss ss = map the (live ss)"

text \<open>
  The state between two collections, as sections 3.3, 3.4 and 4.2 of the specification
  describe it: the two heap lists are well formed and represent \<open>A\<close> and \<open>Os\<close>; every
  reachable object is on one of them; no reachable object and no object of the
  finalizable stack carries the colour that the next collection marks with (objects are
  coloured \<^verbatim>\<open>current_color\<close> by \<^verbatim>\<open>alloc_object\<close> and \<^verbatim>\<open>current_color - 1\<close> by the last
  collection); the slots of the root stack and of the finalizable stack below \<^verbatim>\<open>top\<close>
  have been written; no object is twice on the finalizable stack; and
  \<^verbatim>\<open>Finalizable_Objects_Next\<close> is empty.
\<close>

definition quiescent :: "gc_state \<Rightarrow> addr list \<Rightarrow> addr list \<Rightarrow> bool" where
  "quiescent st A Os \<longleftrightarrow>
     heap_lists st A Os \<and> reachable st \<subseteq> set A \<union> set Os
     \<and> (\<forall>x \<in> reachable st \<union> set (entries_ss (Finalizable_Objects st)).
           color (cells st x) \<noteq> current_color st + 1)
     \<and> filled (Root_Objects st)
     \<and> stack_set_wf (Finalizable_Objects st) \<and> filled (Finalizable_Objects st)
     \<and> distinct (entries_ss (Finalizable_Objects st))
     \<and> stack_set_wf (Finalizable_Objects_Next st)
     \<and> top_ss (Finalizable_Objects_Next st) = 0"

text \<open>The calls of \<^verbatim>\<open>finalize_object\<close> that a step from \<open>st\<close> to \<open>st'\<close> has added to the
  log, as the list of their arguments.\<close>

definition finalized_between :: "gc_state \<Rightarrow> gc_state \<Rightarrow> addr list" where
  "finalized_between st st' = map fst (drop (length (finalize_log st)) (finalize_log st'))"

text \<open>
  A concrete heap of five cells between two collections.  The active list is
  \<open>[4, 1, 5]\<close>, the old list is \<open>[2, 3]\<close>; the one root variable \<open>0\<close> holds cell \<open>1\<close>, a
  pair of the string \<open>2\<close> and the fixnum \<open>3\<close>; the vector \<open>4\<close> and the pair \<open>5\<close> are
  garbage.  The string and the vector are on the finalizable stack, and no cell is free.
  \<open>ex_gc_stale\<close> has two empty lists and empty stacks, but the count of its active list
  is 5: a header that \<^verbatim>\<open>debug_validate\<close> would reject.
\<close>

definition ex_cells :: "addr \<Rightarrow> object" where
  "ex_cells = (\<lambda>a. \<lparr>color = 0, prev = None, next_obj = None, data = THE_EMPTY_LIST\<rparr>)
     (1 := \<lparr>color = 2, prev = Some 4, next_obj = Some 5, data = PAIR 2 3\<rparr>,
      2 := \<lparr>color = 1, prev = None, next_obj = Some 3, data = STRING ''a''\<rparr>,
      3 := \<lparr>color = 1, prev = Some 2, next_obj = None, data = FIXNUM 7\<rparr>,
      4 := \<lparr>color = 2, prev = None, next_obj = Some 1, data = VECTOR [3]\<rparr>,
      5 := \<lparr>color = 2, prev = Some 1, next_obj = None, data = PAIR 4 4\<rparr>)"

definition ex_gc :: gc_state where
  "ex_gc = \<lparr>cells = ex_cells,
     Active_Heap_Objects = \<lparr>head = Some 4, tail = Some 5, num_objects = 3\<rparr>,
     Old_Heap_Objects = \<lparr>head = Some 2, tail = Some 3, num_objects = 2\<rparr>,
     Next_Free_Object = None,
     Root_Objects = \<lparr>objs = [Some 0, None], top_ss = 1, size_ss = 2\<rparr>,
     root_vars = (\<lambda>v. None)(0 := Some 1),
     Finalizable_Objects = \<lparr>objs = [Some 2, Some 4], top_ss = 2, size_ss = 2\<rparr>,
     Finalizable_Objects_Next = \<lparr>objs = [None, None], top_ss = 0, size_ss = 2\<rparr>,
     current_color = 2, Next_Heap_Extension = 8, pool_next = 6, finalize_log = []\<rparr>"

section \<open>Properties of the stack sets\<close>

lemma shifted_snoc:
  "x \<noteq> Some v \<Longrightarrow> xs \<noteq> [] \<Longrightarrow> shifted v (xs @ [x]) = shifted v xs @ [x]"
  by (auto simp: shifted_def)

lemma shifted_snoc_hit: "shifted v (xs @ [Some v]) = xs"
  by (simp add: shifted_def)

lemma shifted_single: "x \<noteq> Some v \<Longrightarrow> shifted v [x] = []"
  by (simp add: shifted_def)

text \<open>The scan over the \<open>n\<close> slots below the old top moves every slot above the topmost
  occurrence of the value down by one, the old top slot included, and reports whether
  the value was there.\<close>

lemma scan_back_shift:
  "n \<le> length arr \<Longrightarrow>
   scan_back v arr (int n - 1) l False =
     Inr (if n = 0 then arr else shifted v (take n arr) @ [l] @ drop n arr,
          Some v \<in> set (take n arr))"
proof (induction n arbitrary: arr l)
  case 0
  then show ?case by (subst scan_back.simps) simp
next
  case (Suc n)
  then have n: "n < length arr" by simp
  have tk: "take (Suc n) arr = take n arr @ [arr ! n]"
    using n by (simp add: take_Suc_conv_app_nth)
  have upd: "arr[n := l] = take n arr @ l # drop (Suc n) arr"
    using n by (simp add: upd_conv_take_nth_drop)
  show ?case
  proof (cases "arr ! n = Some v")
    case True
    have "scan_back v arr (int (Suc n) - 1) l False =
          scan_back v (arr[n := l]) (int n - 1) (arr ! n) True"
      using n True by (subst scan_back.simps) simp
    also have "\<dots> = Inr (arr[n := l], True)"
      by (subst scan_back.simps) simp
    finally show ?thesis
      using True by (simp add: tk upd shifted_snoc_hit)
  next
    case False
    have "scan_back v arr (int (Suc n) - 1) l False =
          scan_back v (arr[n := l]) (int n - 1) (arr ! n) False"
      using n False by (subst scan_back.simps) simp
    also have "\<dots> = Inr (if n = 0 then arr[n := l]
                         else shifted v (take n (arr[n := l])) @ [arr ! n] @ drop n (arr[n := l]),
                    Some v \<in> set (take n (arr[n := l])))"
      using n by (intro Suc.IH) simp
    finally have step: "scan_back v arr (int (Suc n) - 1) l False =
        Inr (if n = 0 then arr[n := l]
             else shifted v (take n arr) @ [arr ! n] @ l # drop (Suc n) arr,
             Some v \<in> set (take n arr))"
      using n by (simp add: Cons_nth_drop_Suc upd)
    show ?thesis
    proof (cases "n = 0")
      case True
      then show ?thesis using step False n
        by (cases arr) (simp_all add: shifted_single)
    next
      case n0: False
      then have "take n arr \<noteq> []" using n by auto
      then show ?thesis using step False n0
        by (simp add: tk shifted_snoc)
    qed
  qed
qed

lemma c_int_id: "- 2147483648 \<le> x \<Longrightarrow> x < 2147483648 \<Longrightarrow> c_int x = x"
  unfolding c_int_def by (simp add: signed_take_bit_int_eq_self)

lemma stack_set_pop_top:
  assumes "stack_set_ok ss" "0 < top_ss ss" "objs ss ! nat (top_ss ss - 1) = Some v"
  shows "stack_set_pop ss v = Inr (True, ss\<lparr>top_ss := top_ss ss - 1\<rparr>)"
  using assms by (simp add: stack_set_pop_def stack_set_ok_def Let_def)

lemma stack_set_pop_scan:
  assumes ok: "stack_set_ok ss" and pos: "0 < top_ss ss"
    and ntop: "objs ss ! nat (top_ss ss - 1) \<noteq> Some v"
  shows "stack_set_pop ss v =
     Inr (Some v \<in> set (take (nat (top_ss ss - 1)) (objs ss)),
          ss\<lparr>objs := (if top_ss ss = 1 then objs ss
                       else shifted v (take (nat (top_ss ss - 1)) (objs ss))
                            @ [objs ss ! nat (top_ss ss - 1)]
                            @ drop (nat (top_ss ss - 1)) (objs ss)),
             top_ss := top_ss ss - 1\<rparr>)"
proof -
  define n where "n = nat (top_ss ss - 1)"
  have n: "int n = top_ss ss - 1" "n \<le> length (objs ss)" "n < length (objs ss)"
    using ok pos by (auto simp: n_def stack_set_ok_def)
  have ci: "c_int (top_ss ss - 1 - 1) = int n - 1"
    using ok pos n by (intro c_int_id[THEN trans]) (auto simp: stack_set_ok_def)
  have sb: "scan_back v (objs ss) (c_int (top_ss ss - 1 - 1)) (objs ss ! nat (top_ss ss - 1)) False =
     Inr (if n = 0 then objs ss
          else shifted v (take n (objs ss)) @ [objs ss ! nat (top_ss ss - 1)] @ drop n (objs ss),
          Some v \<in> set (take n (objs ss)))"
    unfolding ci by (rule scan_back_shift[OF n(2)])
  have n0: "n = 0 \<longleftrightarrow> top_ss ss = 1" using n by auto
  have "stack_set_pop ss v =
     (case scan_back v (objs ss) (c_int (top_ss ss - 1 - 1)) (objs ss ! nat (top_ss ss - 1)) False of
           Inl f \<Rightarrow> Inl f
         | Inr (arr, done) \<Rightarrow> Inr (done, ss\<lparr>objs := arr, top_ss := top_ss ss - 1\<rparr>))"
    unfolding stack_set_pop_def Let_def using ok pos ntop n
    by (simp only: if_False not_less not_le stack_set_ok_def) auto
  then show ?thesis
    unfolding sb by (simp add: n0 flip: n_def)
qed

lemma live_nonempty: "stack_set_ok ss \<Longrightarrow> x \<in> set (live ss) \<Longrightarrow> 0 < top_ss ss"
  by (cases "top_ss ss \<le> 0") (auto simp: live_def)

lemma live_snoc:
  assumes "stack_set_ok ss" "0 < top_ss ss"
  shows "live ss = take (nat (top_ss ss - 1)) (objs ss) @ [objs ss ! nat (top_ss ss - 1)]"
proof -
  have "nat (top_ss ss) = Suc (nat (top_ss ss - 1))" using assms by simp
  moreover have "nat (top_ss ss - 1) < length (objs ss)"
    using assms by (auto simp: stack_set_ok_def)
  ultimately show ?thesis by (simp add: live_def take_Suc_conv_app_nth)
qed

lemma pop_below_top:
  assumes ok: "stack_set_ok ss" and mem: "Some v \<in> set (live ss)"
    and ntop: "last (live ss) \<noteq> Some v"
  shows "\<exists>ys zs ss'. live ss = ys @ Some v # zs \<and> Some v \<notin> set zs \<and>
           stack_set_pop ss v = Inr (True, ss') \<and>
           top_ss ss' = top_ss ss - 1 \<and> size_ss ss' = size_ss ss \<and>
           live ss' = ys @ zs"
proof -
  define n where "n = nat (top_ss ss - 1)"
  define x where "x = objs ss ! n"
  have pos: "0 < top_ss ss" using live_nonempty[OF ok mem] .
  have lv: "live ss = take n (objs ss) @ [x]"
    using live_snoc[OF ok pos] by (simp add: n_def x_def)
  have x: "x \<noteq> Some v" using ntop lv by simp
  then have mem': "Some v \<in> set (take n (objs ss))" using mem lv by simp
  then obtain ys zs where split: "take n (objs ss) = ys @ Some v # zs" "Some v \<notin> set zs"
    by (meson split_list_last)
  have n1: "top_ss ss \<noteq> 1" using mem' by (auto simp: n_def)
  have len: "length (take n (objs ss)) = n"
    using ok pos by (auto simp: n_def stack_set_ok_def)
  have sh: "shifted v (take n (objs ss)) = ys @ zs"
    using mem' split by (simp add: shifted_def remove1_append)
  have lsh: "length (ys @ zs) = n - 1" using len split by simp
  let ?ss' = "ss\<lparr>objs := ys @ zs @ [x] @ drop n (objs ss), top_ss := top_ss ss - 1\<rparr>"
  have pop: "stack_set_pop ss v = Inr (True, ?ss')"
    using stack_set_pop_scan[OF ok pos, of v] x mem' n1 sh
    by (simp add: n_def x_def)
  have "live ?ss' = take n (ys @ zs @ [x] @ drop n (objs ss))"
    by (simp add: live_def n_def)
  also have "\<dots> = ys @ zs @ [x]"
    using lsh split len by (cases n) auto
  finally have "live ?ss' = ys @ (zs @ [x])" by simp
  moreover have "live ss = ys @ Some v # (zs @ [x])" using lv split by simp
  moreover have "Some v \<notin> set (zs @ [x])" using split x by auto
  ultimately show ?thesis using pop
    by (intro exI[of _ ys] exI[of _ "zs @ [x]"] exI[of _ ?ss']) simp
qed

lemma pop_on_top:
  assumes ok: "stack_set_ok ss" and pos: "0 < top_ss ss" and top: "last (live ss) = Some v"
  shows "stack_set_pop ss v = Inr (True, ss\<lparr>top_ss := top_ss ss - 1\<rparr>)"
    and "live (ss\<lparr>top_ss := top_ss ss - 1\<rparr>) = rev (remove1 (Some v) (rev (live ss)))"
proof -
  have lv: "live ss = take (nat (top_ss ss - 1)) (objs ss) @ [objs ss ! nat (top_ss ss - 1)]"
    using live_snoc[OF ok pos] .
  then have "objs ss ! nat (top_ss ss - 1) = Some v" using top by simp
  then show "stack_set_pop ss v = Inr (True, ss\<lparr>top_ss := top_ss ss - 1\<rparr>)"
    using stack_set_pop_top[OF ok pos] by simp
  show "live (ss\<lparr>top_ss := top_ss ss - 1\<rparr>) = rev (remove1 (Some v) (rev (live ss)))"
    using top lv by (simp add: live_def)
qed

lemma pop_absent:
  assumes ok: "stack_set_ok ss" and pos: "0 < top_ss ss" and abs: "Some v \<notin> set (live ss)"
  shows "\<exists>ss'. stack_set_pop ss v = Inr (False, ss')"
proof -
  have lv: "live ss = take (nat (top_ss ss - 1)) (objs ss) @ [objs ss ! nat (top_ss ss - 1)]"
    using live_snoc[OF ok pos] .
  then have "objs ss ! nat (top_ss ss - 1) \<noteq> Some v"
    and "Some v \<notin> set (take (nat (top_ss ss - 1)) (objs ss))"
    using abs by auto
  then show ?thesis using stack_set_pop_scan[OF ok pos, of v] by simp
qed

text \<open>
  Claim C10.  In a well-formed stack set that holds the value, but not in its top slot,
  \<^verbatim>\<open>stack_set_pop\<close> succeeds and leaves the entries in their order: the stack was
  \<open>ys @ Some v # zs\<close> with no further occurrence of the value in \<open>zs\<close>, and it becomes
  \<open>ys @ zs\<close>, so every entry above the removed one has moved down one slot and nothing
  else has moved; \<^verbatim>\<open>top\<close> has gone down by one.
\<close>

theorem stack_set_pop_keeps_order:
  assumes "stack_set_ok ss" and "Some v \<in> set (live ss)" and "last (live ss) \<noteq> Some v"
  shows "\<exists>ys zs ss'. live ss = ys @ Some v # zs \<and> Some v \<notin> set zs \<and>
           stack_set_pop ss v = Inr (True, ss') \<and>
           top_ss ss' = top_ss ss - 1 \<and> size_ss ss' = size_ss ss \<and>
           live ss' = ys @ zs"
  using assms by (rule pop_below_top)

theorem stack_set_pop_keeps_order_witness:
  "stack_set_ok ex_roots \<and> Some 7 \<in> set (live ex_roots) \<and> last (live ex_roots) \<noteq> Some 7 \<and>
   (\<exists>ys zs ss'. live ex_roots = ys @ Some 7 # zs \<and> Some 7 \<notin> set zs \<and>
           stack_set_pop ex_roots 7 = Inr (True, ss') \<and>
           top_ss ss' = top_ss ex_roots - 1 \<and> size_ss ss' = size_ss ex_roots \<and>
           live ss' = ys @ zs)"
  using stack_set_pop_keeps_order[of ex_roots 7]
  by (simp add: ex_roots_def stack_set_ok_def live_def)

lemma pop_empty:
  assumes "top_ss ss = 0"
  shows "stack_set_pop ss v = Inr (False, ss\<lparr>top_ss := - 1\<rparr>)"
proof -
  have c: "c_int (- 2) = - 2" by (rule c_int_id) simp_all
  have "scan_back v (objs ss) (- 2) None False = Inr (objs ss, False)"
    by (subst scan_back.simps) simp
  then show ?thesis using assms by (simp add: stack_set_pop_def Let_def c)
qed

text \<open>
  Claim C9.  On every well-formed root stack, \<^verbatim>\<open>pop_root\<close> succeeds whenever the address
  is on the stack: the height goes down by one and exactly the topmost occurrence of the
  address is removed, the other entries keeping their order; when the address is the top
  entry only \<^verbatim>\<open>top\<close> changes (the fast path), otherwise the scan moves the entries above
  it down.  \<^verbatim>\<open>pop_root\<close> exits with code 2 exactly when the address is not on the stack,
  the empty stack included.
\<close>

theorem pop_root_exits_iff_absent:
  assumes ok: "stack_set_ok Roots"
  shows "(Some r \<in> set (live Roots) \<longrightarrow>
            (\<exists>R'. pop_root Roots r = Inr R' \<and> top_ss R' = top_ss Roots - 1 \<and>
                  live R' = rev (remove1 (Some r) (rev (live Roots))) \<and>
                  (last (live Roots) = Some r \<longrightarrow>
                     R' = Roots\<lparr>top_ss := top_ss Roots - 1\<rparr>)))
       \<and> (pop_root Roots r = Inl (Exit 2) \<longleftrightarrow> Some r \<notin> set (live Roots))"
proof (cases "top_ss Roots = 0")
  case True
  then have "live Roots = []" by (simp add: live_def)
  then show ?thesis using pop_empty[OF True, of r] by (simp add: pop_root_def)
next
  case nz: False
  then have pos: "0 < top_ss Roots" using ok by (simp add: stack_set_ok_def)
  show ?thesis
  proof (cases "Some r \<in> set (live Roots)")
    case False
    then show ?thesis using pop_absent[OF ok pos, of r] by (auto simp: pop_root_def)
  next
    case mem: True
    show ?thesis
    proof (cases "last (live Roots) = Some r")
      case True
      then show ?thesis using pop_on_top[OF ok pos True] mem by (simp add: pop_root_def)
    next
      case False
      from pop_below_top[OF ok mem False] obtain ys zs ss' where
        s: "live Roots = ys @ Some r # zs" "Some r \<notin> set zs"
           "stack_set_pop Roots r = Inr (True, ss')"
           "top_ss ss' = top_ss Roots - 1" "live ss' = ys @ zs"
        by blast
      then have "live ss' = rev (remove1 (Some r) (rev (live Roots)))"
        by (simp add: remove1_append)
      then show ?thesis using s mem False by (simp add: pop_root_def)
    qed
  qed
qed

theorem pop_root_exits_iff_absent_witness:
  "stack_set_ok ex_roots \<and> Some 7 \<in> set (live ex_roots) \<and>
   last (live ex_roots) = Some 9 \<and> Some 5 \<notin> set (live ex_roots) \<and>
   (\<exists>R'. pop_root ex_roots 7 = Inr R' \<and> top_ss R' = 2 \<and> live R' = [Some 8, Some 9]) \<and>
   pop_root ex_roots 9 = Inr (ex_roots\<lparr>top_ss := 2\<rparr>) \<and>
   pop_root ex_roots 5 = Inl (Exit 2) \<and>
   stack_set_ok empty_roots \<and> Some 7 \<notin> set (live empty_roots) \<and>
   pop_root empty_roots 7 = Inl (Exit 2)"
  using pop_root_exits_iff_absent[of ex_roots 7] pop_root_exits_iff_absent[of ex_roots 9]
    pop_root_exits_iff_absent[of ex_roots 5] pop_root_exits_iff_absent[of empty_roots 7]
  by (simp add: ex_roots_def empty_roots_def stack_set_ok_def live_def)
section \<open>Properties of the bytecode machine\<close>

lemma bnd_simps [simp]: "bnd (Inl e) f = Inl e" "bnd (Inr v) f = f v"
  by (simp_all add: bnd_def)




subsection \<open>Malformed bytecode\<close>

text \<open>With the program counter at or past the end of the bytecode vector nothing returns
  the symbol \<^verbatim>\<open>error\<close>: the fetch reads beyond the vector.\<close>

lemma vm_begin_past_end:
  assumes "heap st (code_array st) = VECTOR cs" "int (length cs) \<le> pc st"
  shows "vm_begin P st = Some (Inl Out_Of_Bounds)"
  using assms by (simp add: vm_begin_def fetch_dispatch_def VM_ASSERT_def vref_def)





subsection \<open>The opcode setcc\<close>

text \<open>\<^verbatim>\<open>setcc\<close> assigns \<^verbatim>\<open>car(stack)\<close> to \<^verbatim>\<open>stack\<close>: it reads the live stack, a
  vector, as a pair, and never uses the captured stack that it popped.  In the model no
  execution of the opcode gets past that read.\<close>

lemma op_setcc_faults: "\<exists>e. op_setcc st instr = Inl e"
  by (auto simp: op_setcc_def VPOP_def vector_pop_def car_def bnd_def Let_def
      split: object_data.splits sum.splits prod.splits)

text \<open>
  Claim C1, at a failing input.  The value stack 30 holds the captured stack-top fixnum
  and, above it, the captured stack 32.  The first pop of \<^verbatim>\<open>setcc\<close> yields the captured
  stack, as the claim says; but the opcode does not make it the live stack: it ends in
  the read of the pair member of the live stack.
\<close>

theorem setcc_discards_popped_stack:
  "VPOP ex_setcc = Inr (32, ex_setcc\<lparr>heap := (heap ex_setcc)(30 := VECTOR [0, 31, 0, 0]),
                                     stack_top := 2\<rparr>)
   \<and> op_setcc ex_setcc 0 = Inl Bad_Access"
  by (simp add: op_setcc_def VPOP_def vector_pop_def car_def Let_def
      ex_setcc_def ex_bad_def ex_world_def ex_heap_def the_empty_list_def)

subsection \<open>Calls of compiled procedures\<close>

lemma VPOP_top_vector:
  assumes "heap st (stack st) = VECTOR xs" "0 < stack_top st" "stack_top st \<le> int (length xs)"
  shows "VPOP_top st = Inr (st\<lparr>heap := (heap st)(stack st :=
                                VECTOR (xs[nat (stack_top st - 1) := the_empty_list])),
                            stack_top := stack_top st - 1,
                            top_reg := xs ! nat (stack_top st - 1)\<rparr>)"
  using assms by (simp add: VPOP_top_def VPOP_def vector_pop_def Let_def)

lemma push_pop_root:
  assumes "stack_set_ok R" "0 < size_ss R"
  shows "\<exists>R1. push_root R r = Inr R1 \<and> pop_root R1 r = Inr (R1\<lparr>top_ss := top_ss R\<rparr>)"
  using assms
  by (auto simp: push_root_def stack_set_push_def pop_root_def stack_set_pop_def Let_def
      stack_set_ok_def)

lemma operand_cells:
  assumes "operand h instr n"
  obtains opc r a1 r2 where "h instr = PAIR opc r" "h r = PAIR a1 r2" "h a1 = FIXNUM n"
  using assms
  by (auto simp: operand_def ARG1_def car_def cdr_def LONG_def bnd_def
      split: sum.splits object_data.splits)

lemma operand_upd:
  assumes "operand h instr n" "h s = VECTOR xs"
  shows "ARG1 (h(s := VECTOR ys)) instr = ARG1 h instr"
    and "\<And>a. ARG1 h instr = Inr a \<Longrightarrow> LONG (h(s := VECTOR ys)) a = Inr n"
proof -
  from assms(1) obtain opc r a1 r2 where
    c: "h instr = PAIR opc r" "h r = PAIR a1 r2" "h a1 = FIXNUM n"
    by (rule operand_cells)
  have ne: "instr \<noteq> s" "r \<noteq> s" "a1 \<noteq> s" using c assms(2) by auto
  show "ARG1 (h(s := VECTOR ys)) instr = ARG1 h instr"
    using c ne by (simp add: ARG1_def car_def cdr_def)
  show "\<And>a. ARG1 h instr = Inr a \<Longrightarrow> LONG (h(s := VECTOR ys)) a = Inr n"
    using c ne by (simp add: ARG1_def car_def cdr_def LONG_def)
qed

lemma unwrap_meta_callee:
  "unwrap_meta st = Inr (st\<lparr>top_reg := callee (heap st) (top_reg st)\<rparr>)"
  by (auto simp: unwrap_meta_def is_meta_def METAPROC_def callee_def split: object_data.splits)

lemma callee_upd:
  assumes "h s = VECTOR xs" "compiled_with_env h (callee h c) e"
  shows "callee (h(s := VECTOR ys)) c = callee h c"
    and "compiled_with_env (h(s := VECTOR ys)) (callee h c) e"
  using assms
  by (auto simp: callee_def compiled_with_env_def split: object_data.splits if_splits)


lemma compiled_with_env_D:
  "compiled_with_env h f e \<Longrightarrow>
     (is_compiled_proc h f \<or> is_compiled_syntax_proc h f) \<and> CENV h f = Inr e"
  by (auto simp: compiled_with_env_def is_compiled_proc_def is_compiled_syntax_proc_def CENV_def
      split: object_data.splits)

lemma callj_dispatch_compiled:
  assumes "compiled_with_env (heap st) (top_reg st) e" "heap st (env st) = PAIR fr d"
  shows "callj_dispatch P st n =
     Inr (At_vm_fn_begin (st\<lparr>fn := top_reg st, pc := 0, n_args := n,
                              heap := (heap st)(env st := PAIR fr e)\<rparr>))"
  using compiled_with_env_D[OF assms(1)] assms(2)
  by (auto simp: callj_dispatch_def Let_def set_cdr_def)

lemma fcallj_dispatch_compiled:
  assumes c: "compiled_with_env (heap st) (top_reg st) e"
    and r: "stack_set_ok (vm_roots st)" "0 < size_ss (vm_roots st)"
  shows "\<exists>R. fcallj_dispatch P st n =
     Inr (At_vm_fn_begin (st\<lparr>fn := top_reg st, pc := 0, n_args := n,
            env := Suc (next_cell st),
            heap := (heap st)(next_cell st := VECTOR (replicate (nat (n + 1)) the_empty_list),
                              Suc (next_cell st) := PAIR (next_cell st) e),
            next_cell := Suc (Suc (next_cell st)),
            vm_roots := R\<rparr>))"
proof -
  from push_pop_root[OF r, of Root_newframe] obtain R1 where
    R1: "push_root (vm_roots st) Root_newframe = Inr R1"
        "pop_root R1 Root_newframe = Inr (R1\<lparr>top_ss := top_ss (vm_roots st)\<rparr>)"
    by blast
  show ?thesis
    using compiled_with_env_D[OF c] R1
    by (intro exI[of _ "R1\<lparr>top_ss := top_ss (vm_roots st)\<rparr>"])
       (auto simp: fcallj_dispatch_def Let_def make_vector_def alloc_def cons_def
        PUSH_ROOT_def POP_ROOT_def)
qed

lemma op_fcallj_compiled:
  assumes s: "stack_holds st xs c" and o: "operand (heap st) instr n"
    and c: "compiled_with_env (heap st) (callee (heap st) c) e"
    and r: "stack_set_ok (vm_roots st)" "0 < size_ss (vm_roots st)"
  shows "\<exists>st'. op_fcallj P st instr = Inr (At_vm_fn_begin st')
      \<and> fn st' = callee (heap st) c \<and> pc st' = 0 \<and> n_args st' = n
      \<and> env st' = Suc (next_cell st) \<and> next_cell st' = Suc (Suc (next_cell st))
      \<and> heap st' (env st') = PAIR (next_cell st) e
      \<and> heap st' (next_cell st) = VECTOR (replicate (nat (n + 1)) the_empty_list)
      \<and> (\<forall>a. a < next_cell st \<and> a \<noteq> stack st \<longrightarrow> heap st' a = heap st a)"
proof -
  let ?h1 = "(heap st)(stack st := VECTOR (xs[nat (stack_top st - 1) := the_empty_list]))"
  let ?st1 = "st\<lparr>heap := ?h1, stack_top := stack_top st - 1, top_reg := c\<rparr>"
  have sv: "heap st (stack st) = VECTOR xs" using s by (simp add: stack_holds_def)
  have 1: "VPOP_top st = Inr ?st1"
    using s VPOP_top_vector[of st xs] by (simp add: stack_holds_def)
  have cal: "callee ?h1 c = callee (heap st) c"
    and cwe: "compiled_with_env ?h1 (callee (heap st) c) e"
    using callee_upd[OF sv c] by auto
  let ?st2 = "?st1\<lparr>top_reg := callee (heap st) c\<rparr>"
  have 2: "unwrap_meta ?st1 = Inr ?st2"
    using cal by (simp add: unwrap_meta_callee)
  obtain a1 where a1: "ARG1 (heap st) instr = Inr a1" "LONG (heap st) a1 = Inr n"
    using o by (auto simp: operand_def bnd_def split: sum.splits)
  have 3: "ARG1 ?h1 instr = Inr a1" "LONG ?h1 a1 = Inr n"
    using operand_upd[OF o sv] a1 by auto
  from fcallj_dispatch_compiled[of ?st2 e, OF _ _ _] cwe r
  obtain R where 4: "fcallj_dispatch P ?st2 n =
     Inr (At_vm_fn_begin (?st2\<lparr>fn := top_reg ?st2, pc := 0, n_args := n,
            env := Suc (next_cell ?st2),
            heap := (heap ?st2)(next_cell ?st2 := VECTOR (replicate (nat (n + 1)) the_empty_list),
                              Suc (next_cell ?st2) := PAIR (next_cell ?st2) e),
            next_cell := Suc (Suc (next_cell ?st2)),
            vm_roots := R\<rparr>))"
    by force
  show ?thesis
    unfolding op_fcallj_def 1 bnd_simps 2 using 3 4
    by (auto simp: bnd_def)
qed

lemma op_callj_compiled:
  assumes s: "stack_holds st xs c" and o: "operand (heap st) instr n" and n: "n \<noteq> - 1"
    and c: "compiled_with_env (heap st) (callee (heap st) c) e"
    and e: "heap st (env st) = PAIR fr d"
  shows "\<exists>st'. op_callj P st instr = Some (Inr (At_vm_fn_begin st'))
      \<and> fn st' = callee (heap st) c \<and> pc st' = 0 \<and> n_args st' = n
      \<and> env st' = env st \<and> next_cell st' = next_cell st
      \<and> heap st' (env st) = PAIR fr e
      \<and> (\<forall>a. a \<noteq> env st \<and> a \<noteq> stack st \<longrightarrow> heap st' a = heap st a)"
proof -
  let ?h1 = "(heap st)(stack st := VECTOR (xs[nat (stack_top st - 1) := the_empty_list]))"
  let ?st1 = "st\<lparr>heap := ?h1, stack_top := stack_top st - 1, top_reg := c\<rparr>"
  have sv: "heap st (stack st) = VECTOR xs" using s by (simp add: stack_holds_def)
  have 1: "VPOP_top st = Inr ?st1"
    using s VPOP_top_vector[of st xs] by (simp add: stack_holds_def)
  have cal: "callee ?h1 c = callee (heap st) c"
    and cwe: "compiled_with_env ?h1 (callee (heap st) c) e"
    using callee_upd[OF sv c] by auto
  let ?st2 = "?st1\<lparr>top_reg := callee (heap st) c\<rparr>"
  have 2: "unwrap_meta ?st1 = Inr ?st2"
    using cal by (simp add: unwrap_meta_callee)
  obtain a1 where a1: "ARG1 (heap st) instr = Inr a1" "LONG (heap st) a1 = Inr n"
    using o by (auto simp: operand_def bnd_def split: sum.splits)
  have 3: "ARG1 ?h1 instr = Inr a1" "LONG ?h1 a1 = Inr n"
    using operand_upd[OF o sv] a1 by auto
  have ne: "env st \<noteq> stack st" using e sv by auto
  have 4: "callj_dispatch P ?st2 n =
     Inr (At_vm_fn_begin (?st2\<lparr>fn := top_reg ?st2, pc := 0, n_args := n,
                              heap := (heap ?st2)(env ?st2 := PAIR fr e)\<rparr>))"
    using cwe e ne by (intro callj_dispatch_compiled) auto
  show ?thesis
    unfolding op_callj_def 1 bnd_simps 2 using 3 4 n ne
    by (auto simp: bnd_def)
qed


lemma is_list_upd_vector:
  "is_list h a ys \<Longrightarrow> h s = VECTOR xs \<Longrightarrow> is_list (h(s := VECTOR zs)) a ys"
  by (induction ys arbitrary: a) (auto split: object_data.splits)

lemma VPUSH_vector:
  assumes "heap st (stack st) = VECTOR xs" "0 \<le> stack_top st" "stack_top st \<le> int (length xs)"
    "2 \<le> length xs"
  shows "\<exists>xs'. VPUSH st v = Inr (st\<lparr>heap := (heap st)(stack st := VECTOR xs'),
                                     stack_top := stack_top st + 1\<rparr>)
           \<and> length xs \<le> length xs' \<and> stack_top st + 1 \<le> int (length xs')"
proof (cases "stack_top st = int (length xs)")
  case True
  let ?ys = "xs @ replicate (length xs * 9 div 5 - length xs) the_empty_list"
  have "length xs < length ?ys" using assms(4) by simp
  then show ?thesis using assms True
    by (intro exI[of _ "?ys[nat (stack_top st) := v]"])
       (simp add: VPUSH_def vector_push_def Let_def)
next
  case False
  then show ?thesis using assms
    by (intro exI[of _ "xs[nat (stack_top st) := v]"])
       (simp add: VPUSH_def vector_push_def Let_def)
qed

lemma spread_args_list:
  assumes "is_list (heap st) (top_reg st) ys" "heap st (stack st) = VECTOR xs"
    "0 \<le> stack_top st" "stack_top st \<le> int (length xs)" "2 \<le> length xs"
  shows "\<exists>xs'. spread_args st k =
            Some (Inr (st\<lparr>heap := (heap st)(stack st := VECTOR xs'),
                          stack_top := stack_top st + int (length ys),
                          top_reg := the_empty_list\<rparr>, k + int (length ys)))"
  using assms
proof (induction ys arbitrary: st k xs)
  case Nil
  then have e: "top_reg st = the_empty_list" by simp
  have "(heap st)(stack st := VECTOR xs) = heap st"
    using Nil.prems(2) by (simp add: fun_upd_idem)
  then have "st\<lparr>heap := (heap st)(stack st := VECTOR xs), top_reg := the_empty_list\<rparr> = st"
    using e by simp
  then show ?case using e
    by (intro exI[of _ xs]) (subst spread_args.simps, simp add: is_the_empty_list_def)
next
  case (Cons y ys)
  from Cons.prems(1) obtain d where
    t: "top_reg st \<noteq> the_empty_list" "heap st (top_reg st) = PAIR y d" "is_list (heap st) d ys"
    by (auto split: object_data.splits)
  from VPUSH_vector[OF Cons.prems(2-5), of y] obtain xs1 where
    p: "VPUSH st y = Inr (st\<lparr>heap := (heap st)(stack st := VECTOR xs1),
                             stack_top := stack_top st + 1\<rparr>)"
       "length xs \<le> length xs1" "stack_top st + 1 \<le> int (length xs1)"
    by blast
  let ?st1 = "st\<lparr>heap := (heap st)(stack st := VECTOR xs1), stack_top := stack_top st + 1\<rparr>"
  have ne: "top_reg st \<noteq> stack st" using t Cons.prems(2) by auto
  have l1: "is_list (heap (?st1\<lparr>top_reg := d\<rparr>)) (top_reg (?st1\<lparr>top_reg := d\<rparr>)) ys"
    using is_list_upd_vector[OF t(3) Cons.prems(2)] by simp
  let ?st2 = "?st1\<lparr>top_reg := d\<rparr>"
  have pr: "heap ?st2 (stack ?st2) = VECTOR xs1" "0 \<le> stack_top ?st2"
    "stack_top ?st2 \<le> int (length xs1)" "2 \<le> length xs1"
    using Cons.prems p by auto
  from Cons.IH[OF l1 pr, of "k + 1"] obtain xs' where
    r0: "spread_args ?st2 (k + 1) =
          Some (Inr (?st2\<lparr>heap := (heap ?st2)(stack ?st2 := VECTOR xs'),
                        stack_top := stack_top ?st2 + int (length ys),
                        top_reg := the_empty_list\<rparr>, k + 1 + int (length ys)))"
    by blast
  have r: "spread_args (?st1\<lparr>top_reg := d\<rparr>) (k + 1) =
          Some (Inr (st\<lparr>heap := (heap st)(stack st := VECTOR xs'),
                        stack_top := stack_top st + 1 + int (length ys),
                        top_reg := the_empty_list\<rparr>, k + 1 + int (length ys)))"
    using r0 by simp
  show ?case
    apply (rule exI[of _ xs'])
    apply (subst spread_args.simps)
    using t ne p(1) r
    apply (simp add: is_the_empty_list_def car_def cdr_def)
    done
qed


lemma compiled_with_env_upd:
  "compiled_with_env h f e \<Longrightarrow> h s = VECTOR xs \<Longrightarrow> compiled_with_env (h(s := VECTOR ys)) f e"
  by (auto simp: compiled_with_env_def split: object_data.splits)

lemma op_callj_apply_compiled:
  assumes s: "stack_holds st xs c" and two: "2 \<le> stack_top st"
    and l: "is_list (heap st) (xs ! nat (stack_top st - 2)) ys"
    and o: "operand (heap st) instr (- 1)"
    and c: "compiled_with_env (heap st) (callee (heap st) c) e"
    and e: "heap st (env st) = PAIR fr d"
    and r: "stack_set_ok (vm_roots st)" "0 < size_ss (vm_roots st)"
  shows "\<exists>st'. op_callj P st instr = Some (Inr (At_vm_fn_begin st'))
      \<and> fn st' = callee (heap st) c \<and> pc st' = 0 \<and> n_args st' = int (length ys)
      \<and> env st' = env st \<and> next_cell st' = next_cell st
      \<and> heap st' (env st) = PAIR fr e
      \<and> (\<forall>a. a \<noteq> env st \<and> a \<noteq> stack st \<longrightarrow> heap st' a = heap st a)"
proof -
  define t where "t = stack_top st"
  define f where "f = callee (heap st) c"
  have sv: "heap st (stack st) = VECTOR xs" and tl: "t \<le> int (length xs)"
    and cx: "c = xs ! nat (t - 1)"
    using s by (simp_all add: stack_holds_def t_def)
  have len2: "2 \<le> length xs" using two tl by (simp add: t_def)
  let ?xs1 = "xs[nat (t - 1) := the_empty_list]"
  let ?xs2 = "?xs1[nat (t - 2) := the_empty_list]"
  let ?st1 = "st\<lparr>heap := (heap st)(stack st := VECTOR ?xs1), stack_top := t - 1, top_reg := c\<rparr>"
  have 1: "VPOP_top st = Inr ?st1"
    using s VPOP_top_vector[of st xs] by (simp add: stack_holds_def t_def)
  have cal: "callee (heap ?st1) c = f"
    using callee_upd[OF sv c] by (simp add: f_def)
  let ?st2 = "?st1\<lparr>top_reg := f\<rparr>"
  have 2: "unwrap_meta ?st1 = Inr ?st2"
    using cal by (simp add: unwrap_meta_callee)
  obtain a1 where a1: "ARG1 (heap st) instr = Inr a1" "LONG (heap st) a1 = Inr (- 1)"
    using o by (auto simp: operand_def bnd_def split: sum.splits)
  have 3: "ARG1 (heap ?st2) instr = Inr a1" "LONG (heap ?st2) a1 = Inr (- 1)"
    using operand_upd[OF o sv] a1 by auto
  from push_pop_root[OF r, of Root_target_fn] obtain R1 where
    R1: "push_root (vm_roots st) Root_target_fn = Inr R1"
        "pop_root R1 Root_target_fn = Inr (R1\<lparr>top_ss := top_ss (vm_roots st)\<rparr>)"
    by blast
  let ?st3 = "?st2\<lparr>vm_roots := R1\<rparr>"
  have 4: "PUSH_ROOT ?st2 Root_target_fn = Inr ?st3"
    using R1 by (simp add: PUSH_ROOT_def)
  have nth: "?xs1 ! nat (t - 2) = xs ! nat (t - 2)"
    using two by (simp add: t_def nat_diff_distrib)
  let ?st4 = "st\<lparr>heap := (heap st)(stack st := VECTOR ?xs2), stack_top := t - 2,
                  top_reg := xs ! nat (t - 2), vm_roots := R1\<rparr>"
  have 5: "VPOP_top ?st3 = Inr ?st4"
    using VPOP_top_vector[of ?st3 ?xs1] two tl nth by (simp add: t_def)
  have l4: "is_list (heap ?st4) (top_reg ?st4) ys"
    using is_list_upd_vector[OF l sv] by (simp add: t_def)
  have pr: "heap ?st4 (stack ?st4) = VECTOR ?xs2" "0 \<le> stack_top ?st4"
    "stack_top ?st4 \<le> int (length ?xs2)" "2 \<le> length ?xs2"
    using two tl len2 by (auto simp: t_def)
  from spread_args_list[OF l4 pr, of 0] obtain xs' where
    6: "spread_args ?st4 0 =
          Some (Inr (?st4\<lparr>heap := (heap ?st4)(stack ?st4 := VECTOR xs'),
                          stack_top := stack_top ?st4 + int (length ys),
                          top_reg := the_empty_list\<rparr>, 0 + int (length ys)))"
    by blast
  let ?st5 = "st\<lparr>heap := (heap st)(stack st := VECTOR xs'), stack_top := t - 2 + int (length ys),
                  top_reg := f, vm_roots := R1\<lparr>top_ss := top_ss (vm_roots st)\<rparr>\<rparr>"
  have 7: "callj_apply ?st2 = Some (Inr (?st5, int (length ys)))"
    unfolding callj_apply_def Let_def 4 bnd_simps 5 using 6 R1(2)
    by (simp add: POP_ROOT_def)
  have ne: "env st \<noteq> stack st" using e sv by auto
  have cwe: "compiled_with_env (heap ?st5) (top_reg ?st5) e"
    using compiled_with_env_upd[OF c sv] by (simp add: f_def)
  have 8: "callj_dispatch P ?st5 (int (length ys)) =
     Inr (At_vm_fn_begin (?st5\<lparr>fn := top_reg ?st5, pc := 0, n_args := int (length ys),
                              heap := (heap ?st5)(env ?st5 := PAIR fr e)\<rparr>))"
    using cwe e ne by (intro callj_dispatch_compiled) auto
  have "op_callj P st instr = Some (callj_dispatch P ?st5 (int (length ys)))"
    unfolding op_callj_def 1 bnd_simps 2 using 3 7 by simp
  then show ?thesis
    unfolding 8 using ne by (auto simp: f_def)
qed

text \<open>
  Claim C6.  The value stack is a vector whose top entry \<open>c\<close> is, after the unwrapping
  of a \<^verbatim>\<open>META_PROC\<close>, a compiled procedure (or compiled syntax procedure) with
  captured environment \<open>e\<close>; the environment register is a cons \<open>PAIR fr d\<close>; the root
  stack is well formed and has room to grow.  Then:
  \<^item> \<^verbatim>\<open>callj\<close> with an operand other than -1 dispatches to the callee at
    \<^verbatim>\<open>vm_fn_begin\<close> with \<^verbatim>\<open>pc\<close> 0; the environment register is the same cons, whose
    \<^verbatim>\<open>car\<close> is still the frame \<open>fr\<close> and whose \<^verbatim>\<open>cdr\<close> is now \<open>e\<close>; nothing is
    allocated, and no cell other than that cons and the value stack changes;
  \<^item> \<^verbatim>\<open>callj\<close> with operand -1 (the call of \<^verbatim>\<open>apply\<close>), with a proper list \<open>ys\<close>
    below the callee on the stack, does the same with \<open>length ys\<close> arguments;
  \<^item> \<^verbatim>\<open>fcallj\<close> with operand \<open>n \<ge> 0\<close> dispatches to the callee with an environment
    register that is a cell allocated by this opcode, a cons of a new vector of
    \<open>n + 1\<close> slots and \<open>e\<close>; the cons of the caller and its frame are as before.
\<close>

theorem call_env_reuse_and_fresh:
  assumes s: "stack_holds st xs c"
    and c: "compiled_with_env (heap st) (callee (heap st) c) e"
    and e: "heap st (env st) = PAIR fr d"
    and r: "stack_set_ok (vm_roots st)" "0 < size_ss (vm_roots st)"
  shows "(operand (heap st) instr n \<and> n \<noteq> - 1 \<longrightarrow>
            (\<exists>st'. op_callj P st instr = Some (Inr (At_vm_fn_begin st'))
               \<and> fn st' = callee (heap st) c \<and> pc st' = 0 \<and> n_args st' = n
               \<and> env st' = env st \<and> heap st' (env st) = PAIR fr e
               \<and> next_cell st' = next_cell st
               \<and> (\<forall>a. a \<noteq> env st \<and> a \<noteq> stack st \<longrightarrow> heap st' a = heap st a)))
       \<and> (operand (heap st) instr (- 1) \<and> 2 \<le> stack_top st
            \<and> is_list (heap st) (xs ! nat (stack_top st - 2)) ys \<longrightarrow>
            (\<exists>st'. op_callj P st instr = Some (Inr (At_vm_fn_begin st'))
               \<and> fn st' = callee (heap st) c \<and> pc st' = 0 \<and> n_args st' = int (length ys)
               \<and> env st' = env st \<and> heap st' (env st) = PAIR fr e
               \<and> next_cell st' = next_cell st
               \<and> (\<forall>a. a \<noteq> env st \<and> a \<noteq> stack st \<longrightarrow> heap st' a = heap st a)))
       \<and> (operand (heap st) instr n \<and> 0 \<le> n \<longrightarrow>
            (\<exists>st' fs. op_fcallj P st instr = Inr (At_vm_fn_begin st')
               \<and> fn st' = callee (heap st) c \<and> pc st' = 0 \<and> n_args st' = n
               \<and> next_cell st \<le> env st' \<and> env st' < next_cell st'
               \<and> heap st' (env st') = PAIR (next_cell st) e
               \<and> heap st' (next_cell st) = VECTOR fs \<and> int (length fs) = n + 1
               \<and> (env st < next_cell st \<longrightarrow> heap st' (env st) = PAIR fr d)
               \<and> (fr < next_cell st \<and> fr \<noteq> stack st \<longrightarrow> heap st' fr = heap st fr)))"
proof (intro conjI impI)
  assume "operand (heap st) instr n \<and> n \<noteq> - 1"
  then show "\<exists>st'. op_callj P st instr = Some (Inr (At_vm_fn_begin st'))
               \<and> fn st' = callee (heap st) c \<and> pc st' = 0 \<and> n_args st' = n
               \<and> env st' = env st \<and> heap st' (env st) = PAIR fr e
               \<and> next_cell st' = next_cell st
               \<and> (\<forall>a. a \<noteq> env st \<and> a \<noteq> stack st \<longrightarrow> heap st' a = heap st a)"
    using op_callj_compiled[OF s _ _ c e, of instr n P] by blast
next
  assume "operand (heap st) instr (- 1) \<and> 2 \<le> stack_top st
            \<and> is_list (heap st) (xs ! nat (stack_top st - 2)) ys"
  then show "\<exists>st'. op_callj P st instr = Some (Inr (At_vm_fn_begin st'))
               \<and> fn st' = callee (heap st) c \<and> pc st' = 0 \<and> n_args st' = int (length ys)
               \<and> env st' = env st \<and> heap st' (env st) = PAIR fr e
               \<and> next_cell st' = next_cell st
               \<and> (\<forall>a. a \<noteq> env st \<and> a \<noteq> stack st \<longrightarrow> heap st' a = heap st a)"
    using op_callj_apply_compiled[OF s _ _ _ c e r, of ys instr P] by blast
next
  assume a: "operand (heap st) instr n \<and> 0 \<le> n"
  have ne: "env st \<noteq> stack st" using e s by (auto simp: stack_holds_def)
  from a op_fcallj_compiled[OF s _ c r, of instr n P] obtain st' where
    st': "op_fcallj P st instr = Inr (At_vm_fn_begin st')"
      "fn st' = callee (heap st) c" "pc st' = 0" "n_args st' = n"
      "env st' = Suc (next_cell st)" "next_cell st' = Suc (Suc (next_cell st))"
      "heap st' (env st') = PAIR (next_cell st) e"
      "heap st' (next_cell st) = VECTOR (replicate (nat (n + 1)) the_empty_list)"
      "\<forall>a. a < next_cell st \<and> a \<noteq> stack st \<longrightarrow> heap st' a = heap st a"
    by blast
  show "\<exists>st' fs. op_fcallj P st instr = Inr (At_vm_fn_begin st')
               \<and> fn st' = callee (heap st) c \<and> pc st' = 0 \<and> n_args st' = n
               \<and> next_cell st \<le> env st' \<and> env st' < next_cell st'
               \<and> heap st' (env st') = PAIR (next_cell st) e
               \<and> heap st' (next_cell st) = VECTOR fs \<and> int (length fs) = n + 1
               \<and> (env st < next_cell st \<longrightarrow> heap st' (env st) = PAIR fr d)
               \<and> (fr < next_cell st \<and> fr \<noteq> stack st \<longrightarrow> heap st' fr = heap st fr)"
    using st' a ne e
    by (intro exI[of _ st'] exI[of _ "replicate (nat (n + 1)) the_empty_list"]) auto
qed

theorem call_env_reuse_and_fresh_witness:
  "stack_holds ex_call [22, 11, 0, 0] 11
   \<and> compiled_with_env (heap ex_call) (callee (heap ex_call) 11) 0
   \<and> heap ex_call (env ex_call) = PAIR 18 0
   \<and> stack_set_ok (vm_roots ex_call) \<and> 0 < size_ss (vm_roots ex_call)
   \<and> operand (heap ex_call) 13 2 \<and> (2::int) \<noteq> - 1 \<and> (0::int) \<le> 2
   \<and> operand (heap ex_call) 23 (- 1) \<and> 2 \<le> stack_top ex_call
   \<and> is_list (heap ex_call) ([22, 11, 0, 0] ! nat (stack_top ex_call - 2)) [16]
   \<and> (\<exists>st'. op_callj no_prims ex_call 13 = Some (Inr (At_vm_fn_begin st'))
          \<and> fn st' = 11 \<and> n_args st' = 2 \<and> env st' = 17 \<and> heap st' 17 = PAIR 18 0)
   \<and> (\<exists>st'. op_callj no_prims ex_call 23 = Some (Inr (At_vm_fn_begin st'))
          \<and> fn st' = 11 \<and> n_args st' = 1 \<and> env st' = 17 \<and> heap st' 17 = PAIR 18 0)
   \<and> (\<exists>st' fs. op_fcallj no_prims ex_call 13 = Inr (At_vm_fn_begin st')
          \<and> fn st' = 11 \<and> n_args st' = 2 \<and> 40 \<le> env st' \<and> heap st' (env st') = PAIR 40 0
          \<and> heap st' 40 = VECTOR fs \<and> length fs = 3
          \<and> heap st' 17 = PAIR 18 0 \<and> heap st' 18 = VECTOR [0])"
proof -
  have h: "stack_holds ex_call [22, 11, 0, 0] 11"
    "compiled_with_env (heap ex_call) (callee (heap ex_call) 11) 0"
    "heap ex_call (env ex_call) = PAIR 18 0"
    "stack_set_ok (vm_roots ex_call)" "0 < size_ss (vm_roots ex_call)"
    by (simp_all add: ex_call_def ex_bad_def ex_world_def ex_heap_def stack_holds_def
        compiled_with_env_def callee_def stack_set_ok_def)
  have o: "operand (heap ex_call) 13 2" "operand (heap ex_call) 23 (- 1)"
    "2 \<le> stack_top ex_call"
    "is_list (heap ex_call) ([22, 11, 0, 0] ! nat (stack_top ex_call - 2)) [16]"
    by (simp_all add: ex_call_def ex_bad_def ex_world_def ex_heap_def operand_def
        ARG1_def car_def cdr_def LONG_def the_empty_list_def)
  have v: "next_cell ex_call = 40" "env ex_call = 17" "stack ex_call = 26"
    "callee (heap ex_call) 11 = 11" "heap ex_call 18 = VECTOR [0]"
    by (simp_all add: ex_call_def ex_bad_def ex_world_def ex_heap_def callee_def)
  note T = call_env_reuse_and_fresh[OF h, of 13 2 no_prims "[16]"]
  note U = call_env_reuse_and_fresh[OF h, of 23 2 no_prims "[16]"]
  have "operand (heap ex_call) 13 2 \<and> (2::int) \<noteq> - 1" using o by simp
  with T[THEN conjunct1] obtain s1 where
    "op_callj no_prims ex_call 13 = Some (Inr (At_vm_fn_begin s1))"
    "fn s1 = callee (heap ex_call) 11" "n_args s1 = 2" "env s1 = env ex_call"
    "heap s1 (env ex_call) = PAIR 18 0"
    by blast
  then have A: "\<exists>st'. op_callj no_prims ex_call 13 = Some (Inr (At_vm_fn_begin st'))
          \<and> fn st' = 11 \<and> n_args st' = 2 \<and> env st' = 17 \<and> heap st' 17 = PAIR 18 0"
    unfolding v by blast
  have "operand (heap ex_call) 23 (- 1) \<and> 2 \<le> stack_top ex_call
        \<and> is_list (heap ex_call) ([22, 11, 0, 0] ! nat (stack_top ex_call - 2)) [16]"
    using o by simp
  with U[THEN conjunct2, THEN conjunct1] obtain s2 where
    "op_callj no_prims ex_call 23 = Some (Inr (At_vm_fn_begin s2))"
    "fn s2 = callee (heap ex_call) 11" "n_args s2 = int (length [16::nat])" "env s2 = env ex_call"
    "heap s2 (env ex_call) = PAIR 18 0"
    by blast
  then have B: "\<exists>st'. op_callj no_prims ex_call 23 = Some (Inr (At_vm_fn_begin st'))
          \<and> fn st' = 11 \<and> n_args st' = 1 \<and> env st' = 17 \<and> heap st' 17 = PAIR 18 0"
    unfolding v by auto
  have "operand (heap ex_call) 13 2 \<and> (0::int) \<le> 2" using o by simp
  with T[THEN conjunct2, THEN conjunct2] obtain s3 fs where
    "op_fcallj no_prims ex_call 13 = Inr (At_vm_fn_begin s3)"
    "fn s3 = callee (heap ex_call) 11" "n_args s3 = 2" "next_cell ex_call \<le> env s3"
    "heap s3 (env s3) = PAIR (next_cell ex_call) 0"
    "heap s3 (next_cell ex_call) = VECTOR fs" "int (length fs) = 2 + 1"
    "env ex_call < next_cell ex_call \<longrightarrow> heap s3 (env ex_call) = PAIR 18 0"
    "18 < next_cell ex_call \<and> 18 \<noteq> stack ex_call \<longrightarrow> heap s3 18 = heap ex_call 18"
    by blast
  then have C: "\<exists>st' fs. op_fcallj no_prims ex_call 13 = Inr (At_vm_fn_begin st')
          \<and> fn st' = 11 \<and> n_args st' = 2 \<and> 40 \<le> env st' \<and> heap st' (env st') = PAIR 40 0
          \<and> heap st' 40 = VECTOR fs \<and> length fs = 3
          \<and> heap st' 17 = PAIR 18 0 \<and> heap st' 18 = VECTOR [0]"
    unfolding v by (intro exI[of _ s3] exI[of _ fs]) simp
  show ?thesis using h o A B C by simp
qed

subsection \<open>The opcode argsdot\<close>

lemma list_below_is_list: "list_below b h a ys \<Longrightarrow> is_list h a ys"
  by (induction ys arbitrary: a) (auto split: object_data.splits)

lemma list_below_frame:
  "list_below b h a ys \<Longrightarrow> (\<And>c x d. c < b \<Longrightarrow> h c = PAIR x d \<Longrightarrow> h' c = PAIR x d) \<Longrightarrow> b \<le> b'
   \<Longrightarrow> list_below b' h' a ys"
proof (induction ys arbitrary: a)
  case Nil
  then show ?case by simp
next
  case (Cons y ys)
  from Cons.prems(1) obtain d where
    a: "a \<noteq> the_empty_list" "a < b" "h a = PAIR y d" "list_below b h d ys"
    by (auto split: object_data.splits)
  have "h' a = PAIR y d" using Cons.prems(2)[OF a(2,3)] .
  moreover have "list_below b' h' d ys"
    using Cons.IH[OF a(4)] Cons.prems(2,3) by blast
  ultimately show ?case using a Cons.prems(3) by simp
qed

lemma take_drop_snoc:
  assumes "Suc k \<le> t" "t \<le> length xs"
  shows "drop (t - Suc k) (take t xs) = drop (t - Suc k) (take (t - 1) xs) @ [xs ! (t - 1)]"
proof -
  have "take t xs = take (t - 1) xs @ [xs ! (t - 1)]"
    using assms by (metis Suc_diff_1 Suc_le_lessD less_le_trans take_Suc_conv_app_nth zero_less_Suc
        diff_Suc_1 less_eq_Suc_le)
  then show ?thesis using assms by simp
qed


lemma VPOP_top_nat:
  assumes "heap st (stack st) = VECTOR xs" "stack_top st = int (Suc t)" "Suc t \<le> length xs"
  shows "VPOP_top st = Inr (st\<lparr>heap := (heap st)(stack st := VECTOR (xs[t := the_empty_list])),
                            stack_top := int t, top_reg := xs ! t\<rparr>)"
  using assms by (simp add: VPOP_top_def VPOP_def vector_pop_def Let_def)

lemma pop_args_effect:
  assumes "heap st (stack st) = VECTOR xs" "heap st v = VECTOR fs" "v \<noteq> stack st"
    "stack_top st = int t" "k \<le> t" "t \<le> length xs" "k \<le> length fs"
  shows "\<exists>xs' r. pop_args st v k =
           Inr (st\<lparr>heap := (heap st)(stack st := VECTOR xs',
                                    v := VECTOR (drop (t - k) (take t xs) @ drop k fs)),
                    stack_top := int (t - k), top_reg := r\<rparr>)"
  using assms
proof (induction k arbitrary: st xs fs t)
  case 0
  have "(heap st)(stack st := VECTOR xs, v := VECTOR fs) = heap st"
    using 0 by (simp add: fun_upd_idem)
  then have eq: "st\<lparr>heap := (heap st)(stack st := VECTOR xs,
                          v := VECTOR (drop (t - 0) (take t xs) @ drop 0 fs)),
                stack_top := int (t - 0), top_reg := top_reg st\<rparr> = st"
    using 0 by simp
  show ?case
    by (intro exI[of _ xs] exI[of _ "top_reg st"]) (simp only: pop_args.simps eq)
next
  case (Suc k)
  from Suc.prems obtain t' where t': "t = Suc t'" by (cases t) auto
  let ?y = "xs ! t'"
  let ?xs1 = "xs[t' := the_empty_list]"
  let ?st1 = "st\<lparr>heap := (heap st)(stack st := VECTOR ?xs1), stack_top := int t', top_reg := ?y\<rparr>"
  have 1: "VPOP_top st = Inr ?st1"
    using VPOP_top_nat[of st xs t'] Suc.prems t' by simp
  let ?h2 = "(heap ?st1)(v := VECTOR (fs[k := ?y]))"
  have 2: "vset (heap ?st1) v (int k) (top_reg ?st1) = Inr ?h2"
    using Suc.prems by (simp add: vset_def)
  let ?st2 = "?st1\<lparr>heap := ?h2\<rparr>"
  have pr: "heap ?st2 (stack ?st2) = VECTOR ?xs1" "heap ?st2 v = VECTOR (fs[k := ?y])"
    "v \<noteq> stack ?st2" "stack_top ?st2 = int t'" "k \<le> t'" "t' \<le> length ?xs1"
    "k \<le> length (fs[k := ?y])"
    using Suc.prems t' by auto
  from Suc.IH[OF pr] obtain xs' r where
    r0: "pop_args ?st2 v k =
           Inr (?st2\<lparr>heap := (heap ?st2)(stack ?st2 := VECTOR xs',
                          v := VECTOR (drop (t' - k) (take t' ?xs1) @ drop k (fs[k := ?y]))),
                    stack_top := int (t' - k), top_reg := r\<rparr>)"
    by blast
  have tk: "take t' ?xs1 = take t' xs" by simp
  have dk: "drop k (fs[k := ?y]) = ?y # drop (Suc k) fs"
    using Suc.prems by (simp add: drop_update_cancel upd_conv_take_nth_drop)
  have sn: "drop (t - Suc k) (take t xs) = drop (t - Suc k) (take (t - 1) xs) @ [xs ! (t - 1)]"
    using take_drop_snoc[of k t xs] Suc.prems by simp
  have eq: "drop (t' - k) (take t' ?xs1) @ drop k (fs[k := ?y])
            = drop (t - Suc k) (take t xs) @ drop (Suc k) fs"
    unfolding tk dk sn using t' by simp
  have r: "pop_args ?st2 v k =
           Inr (st\<lparr>heap := (heap st)(stack st := VECTOR xs',
                          v := VECTOR (drop (t - Suc k) (take t xs) @ drop (Suc k) fs)),
                    stack_top := int (t - Suc k), top_reg := r\<rparr>)"
    using r0 Suc.prems(3) unfolding eq t' by (simp add: fun_upd_twist)
  show ?case
    by (intro exI[of _ xs'] exI[of _ r]) (simp only: pop_args.simps 1 sum.case 2 r)
qed


lemma pop_rest_effect:
  assumes "heap st (stack st) = VECTOR xs" "heap st v = VECTOR fs" "v \<noteq> stack st"
    "stack_top st = int t" "k \<le> t" "t \<le> length xs" "s < length fs"
    "list_below (next_cell st) (heap st) (fs ! s) acc"
    "stack st < next_cell st" "v < next_cell st"
  shows "\<exists>xs' r l h'. pop_rest st v (int s) k =
           Inr (st\<lparr>heap := h', stack_top := int (t - k), top_reg := r,
                    next_cell := next_cell st + k\<rparr>)
         \<and> h' (stack st) = VECTOR xs' \<and> length xs' = length xs
         \<and> take (t - k) xs' = take (t - k) xs
         \<and> h' v = VECTOR (fs[s := l])
         \<and> list_below (next_cell st + k) h' l (drop (t - k) (take t xs) @ acc)
         \<and> (\<forall>a < next_cell st. a \<noteq> stack st \<and> a \<noteq> v \<longrightarrow> h' a = heap st a)"
  using assms
proof (induction k arbitrary: st xs fs t acc)
  case 0
  have eq: "st\<lparr>heap := heap st, stack_top := int (t - 0), top_reg := top_reg st,
               next_cell := next_cell st + 0\<rparr> = st"
    using 0 by simp
  show ?case
    apply (rule exI[of _ xs], rule exI[of _ "top_reg st"], rule exI[of _ "fs ! s"],
        rule exI[of _ "heap st"])
    apply (simp only: pop_rest.simps eq)
    using 0 apply simp
    done
next
  case (Suc k)
  from Suc.prems obtain t' where t': "t = Suc t'" by (cases t) auto
  define nc where "nc = next_cell st"
  let ?y = "xs ! t'"
  let ?xs1 = "xs[t' := the_empty_list]"
  let ?h1 = "(heap st)(stack st := VECTOR ?xs1)"
  let ?st1 = "st\<lparr>heap := ?h1, stack_top := int t', top_reg := ?y\<rparr>"
  have 1: "VPOP_top st = Inr ?st1"
    using VPOP_top_nat[of st xs t'] Suc.prems t' by simp
  have 2: "vref (heap ?st1) v (int s) = Inr (fs ! s)"
    using Suc.prems by (simp add: vref_def)
  let ?h2 = "?h1(nc := PAIR ?y (fs ! s))"
  let ?st2 = "?st1\<lparr>heap := ?h2, next_cell := Suc nc\<rparr>"
  have 3: "cons ?st1 (top_reg ?st1) (fs ! s) = (nc, ?st2)"
    by (simp add: cons_def alloc_def nc_def)
  have ne: "v \<noteq> nc" "stack st \<noteq> nc" using Suc.prems by (auto simp: nc_def)
  let ?h3 = "?h2(v := VECTOR (fs[s := nc]))"
  have 4: "vset (heap ?st2) v (int s) nc = Inr ?h3"
    using Suc.prems ne by (simp add: vset_def)
  let ?st3 = "?st2\<lparr>heap := ?h3\<rparr>"
  have lb: "list_below (Suc nc) ?h3 (fs ! s) acc"
  proof (rule list_below_frame[OF Suc.prems(8)])
    fix c x d assume "c < next_cell st" "heap st c = PAIR x d"
    then show "?h3 c = PAIR x d"
      using Suc.prems(1,2) by (auto simp: nc_def)
  qed (simp add: nc_def)
  have nc0: "nc \<noteq> the_empty_list"
    using Suc.prems(9) by (simp add: nc_def the_empty_list_def)
  have pr: "heap ?st3 (stack ?st3) = VECTOR ?xs1" "heap ?st3 v = VECTOR (fs[s := nc])"
    "v \<noteq> stack ?st3" "stack_top ?st3 = int t'" "k \<le> t'" "t' \<le> length ?xs1"
    "s < length (fs[s := nc])"
    "list_below (next_cell ?st3) (heap ?st3) (fs[s := nc] ! s) (?y # acc)"
    "stack ?st3 < next_cell ?st3" "v < next_cell ?st3"
    using Suc.prems t' ne lb nc0 by (auto simp: nc_def)
  from Suc.IH[OF pr] obtain xs' r l h' where
    r0: "pop_rest ?st3 v (int s) k =
           Inr (?st3\<lparr>heap := h', stack_top := int (t' - k), top_reg := r,
                    next_cell := next_cell ?st3 + k\<rparr>)"
    and p: "h' (stack ?st3) = VECTOR xs'" "length xs' = length ?xs1"
      "take (t' - k) xs' = take (t' - k) ?xs1"
      "h' v = VECTOR (fs[s := nc, s := l])"
      "list_below (next_cell ?st3 + k) h' l (drop (t' - k) (take t' ?xs1) @ ?y # acc)"
      "\<forall>a < next_cell ?st3. a \<noteq> stack ?st3 \<and> a \<noteq> v \<longrightarrow> h' a = heap ?st3 a"
    by blast
  have r: "pop_rest ?st3 v (int s) k =
           Inr (st\<lparr>heap := h', stack_top := int (t - Suc k), top_reg := r,
                    next_cell := next_cell st + Suc k\<rparr>)"
    using r0 unfolding t' by (simp add: nc_def)
  have sn: "drop (t - Suc k) (take t xs) = drop (t - Suc k) (take (t - 1) xs) @ [xs ! (t - 1)]"
    using take_drop_snoc[of k t xs] Suc.prems by simp
  have q: "h' (stack st) = VECTOR xs'" "length xs' = length xs"
    "take (t - Suc k) xs' = take (t - Suc k) xs"
    "h' v = VECTOR (fs[s := l])"
    "list_below (next_cell st + Suc k) h' l (drop (t - Suc k) (take t xs) @ acc)"
    "\<forall>a < next_cell st. a \<noteq> stack st \<and> a \<noteq> v \<longrightarrow> h' a = heap st a"
  proof -
    have le: "drop (t' - k) (take t' ?xs1) @ ?y # acc = drop (t - Suc k) (take t xs) @ acc"
      using sn t' by simp
    show "list_below (next_cell st + Suc k) h' l (drop (t - Suc k) (take t xs) @ acc)"
      using p(5) unfolding le by (simp add: nc_def)
  qed (use p t' in \<open>auto simp: nc_def\<close>)
  show ?case
    apply (rule exI[of _ xs'], rule exI[of _ r], rule exI[of _ l], rule exI[of _ h'])
    apply (simp only: pop_rest.simps 1 sum.case 2 3 prod.case 4 r)
    using q apply simp
    done
qed


lemma resize_frame_effect:
  assumes "heap st (env st) = PAIR fr d" "heap st fr = VECTOR fs" "env st < next_cell st"
  shows "resize_frame st m =
     Inr (if int (length fs) < m
          then st\<lparr>heap := (heap st)(next_cell st := VECTOR (replicate (nat m) the_empty_list),
                                   env st := PAIR (next_cell st) d),
                  next_cell := Suc (next_cell st)\<rparr>
          else st)"
  using assms
  by (simp add: resize_frame_def car_def VSIZE_def make_vector_def alloc_def set_car_def)

lemma argsdot_frame:
  assumes o: "operand (heap st) instr (int m)"
    and s: "heap st (stack st) = VECTOR xs" "stack_top st = int t" "n_args st = int na"
      "m \<le> na" "na \<le> t" "t \<le> length xs" "t \<le> 2147483647"
    and e: "heap st (env st) = PAIR fr d" "heap st fr = VECTOR fs" "fr \<noteq> stack st"
    and a: "stack st < next_cell st" "env st < next_cell st" "fr < next_cell st"
  shows "\<exists>st' fr' fs'. op_argsdot st instr = Inr (At_vm_begin st')
     \<and> env st' = env st \<and> heap st' (env st) = PAIR fr' d \<and> heap st' fr' = VECTOR fs'
     \<and> m < length fs' \<and> take m fs' = take m (drop (t - na) (take t xs))
     \<and> is_list (heap st') (fs' ! m) (drop m (drop (t - na) (take t xs)))
     \<and> stack_top st' = int (t - na)"
proof -
  obtain a1 where a1: "ARG1 (heap st) instr = Inr a1" "LONG (heap st) a1 = Inr (int m)"
    using o by (auto simp: operand_def bnd_def split: sum.splits)
  define nc where "nc = next_cell st"
  define st2 where "st2 = (if int (length fs) < int m + 1
          then st\<lparr>heap := (heap st)(nc := VECTOR (replicate (nat (int m + 1)) the_empty_list),
                                   env st := PAIR nc d),
                  next_cell := Suc nc\<rparr>
          else st)"
  define fr2 where "fr2 = (if int (length fs) < int m + 1 then nc else fr)"
  define fs2 where "fs2 = (if int (length fs) < int m + 1
                           then replicate (nat (int m + 1)) the_empty_list else fs)"
  have 1: "resize_frame st (int m + 1) = Inr st2"
    using resize_frame_effect[OF e(1,2) a(2), of "int m + 1"] by (simp add: st2_def nc_def)
  have ne: "env st \<noteq> stack st" "env st \<noteq> fr" "nc \<noteq> stack st" "nc \<noteq> env st" "nc \<noteq> fr"
    using e s(1) a by (auto simp: nc_def)
  have p2: "heap st2 (env st2) = PAIR fr2 d" "heap st2 fr2 = VECTOR fs2" "m < length fs2"
    "fr2 \<noteq> stack st" "fr2 < next_cell st2" "heap st2 (stack st) = VECTOR xs"
    "stack st2 = stack st" "stack_top st2 = int t" "env st2 = env st"
    "stack st < next_cell st2" "env st < next_cell st2" "fr2 \<noteq> env st"
    using e s a ne by (auto simp: st2_def fr2_def fs2_def nc_def)
  have 2: "car (heap st2) (env st2) = Inr fr2"
    using p2 by (simp add: car_def)
  let ?h = "(heap st2)(fr2 := VECTOR (fs2[m := the_empty_list]))"
  have 3: "vset (heap st2) fr2 (int m + 1 - 1) the_empty_list = Inr ?h"
    using p2 by (simp add: vset_def)
  let ?st2' = "st2\<lparr>heap := ?h\<rparr>"
  have pr: "heap ?st2' (stack ?st2') = VECTOR xs" "heap ?st2' fr2 = VECTOR (fs2[m := the_empty_list])"
    "fr2 \<noteq> stack ?st2'" "stack_top ?st2' = int t" "na - m \<le> t" "t \<le> length xs"
    "m < length (fs2[m := the_empty_list])"
    "list_below (next_cell ?st2') (heap ?st2') (fs2[m := the_empty_list] ! m) []"
    "stack ?st2' < next_cell ?st2'" "fr2 < next_cell ?st2'"
    using p2 s by auto
  from pop_rest_effect[OF pr] obtain xs' r l h' where
    r0: "pop_rest ?st2' fr2 (int m) (na - m) =
           Inr (?st2'\<lparr>heap := h', stack_top := int (t - (na - m)), top_reg := r,
                    next_cell := next_cell ?st2' + (na - m)\<rparr>)"
    and q: "h' (stack ?st2') = VECTOR xs'" "length xs' = length xs"
      "take (t - (na - m)) xs' = take (t - (na - m)) xs"
      "h' fr2 = VECTOR (fs2[m := the_empty_list, m := l])"
      "list_below (next_cell ?st2' + (na - m)) h' l (drop (t - (na - m)) (take t xs) @ [])"
      "\<forall>a < next_cell ?st2'. a \<noteq> stack ?st2' \<and> a \<noteq> fr2 \<longrightarrow> h' a = heap ?st2' a"
    by blast
  define t3 where "t3 = t - (na - m)"
  let ?st3 = "st2\<lparr>heap := h', stack_top := int t3, top_reg := r,
                  next_cell := next_cell st2 + (na - m)\<rparr>"
  have 4: "pop_rest ?st2' fr2 (int m + 1 - 1) (nat (n_args st - int m)) = Inr ?st3"
    using r0 s by (simp add: t3_def nat_diff_distrib)
  have t3: "m \<le> t3" "t3 \<le> length xs'" "t3 - m = t - na"
    using s q by (auto simp: t3_def)
  have henv: "h' (env st) = PAIR fr2 d"
    using q(6) p2 ne by auto
  have pr3: "heap ?st3 (stack ?st3) = VECTOR xs'" "heap ?st3 fr2 = VECTOR (fs2[m := l])"
    "fr2 \<noteq> stack ?st3" "stack_top ?st3 = int t3" "m \<le> t3" "t3 \<le> length xs'"
    "m \<le> length (fs2[m := l])"
    using q p2 t3 by auto
  from pop_args_effect[OF pr3] obtain xs'' r' where
    5: "pop_args ?st3 fr2 m =
           Inr (?st3\<lparr>heap := (heap ?st3)(stack ?st3 := VECTOR xs'',
                                    fr2 := VECTOR (drop (t3 - m) (take t3 xs') @ drop m (fs2[m := l]))),
                    stack_top := int (t3 - m), top_reg := r'\<rparr>)"
    by blast
  let ?fs' = "drop (t3 - m) (take t3 xs') @ drop m (fs2[m := l])"
  let ?st4 = "?st3\<lparr>heap := (heap ?st3)(stack ?st3 := VECTOR xs'', fr2 := VECTOR ?fs'),
                    stack_top := int (t3 - m), top_reg := r'\<rparr>"
  have ci: "nat (c_int (int m - 1) + 1) = m"
    using s by (subst c_int_id) auto
  have run: "op_argsdot st instr = Inr (At_vm_begin ?st4)"
    unfolding op_argsdot_def using a1 s(3,4) 1 2 3 4 5
    by (simp add: VM_ASSERT_def Let_def ci p2)
  have len1: "length (drop (t3 - m) (take t3 xs')) = m" using t3 by simp
  have tk: "take m ?fs' = take m (drop (t - na) (take t xs))"
  proof -
    have "take m ?fs' = drop (t3 - m) (take t3 xs')" using len1 by simp
    also have "\<dots> = drop (t - na) (take t3 xs)" using q(3) t3 by (simp add: t3_def)
    also have "\<dots> = take m (drop (t - na) (take t xs))"
    proof -
      have a: "m + (t - na) = t3" "min t3 t = t3" using s by (auto simp: t3_def)
      have "take m (drop (t - na) (take t xs)) = drop (t - na) (take (m + (t - na)) (take t xs))"
        by (simp only: take_drop)
      also have "\<dots> = drop (t - na) (take t3 xs)"
        unfolding a(1) by (simp only: take_take a(2))
      finally show ?thesis by simp
    qed
    finally show ?thesis .
  qed
  have nth: "?fs' ! m = l" using len1 p2 by (simp add: nth_append)
  have "t - (na - m) = m + (t - na)" using s by simp
  then have dl: "drop (t - (na - m)) (take t xs) @ [] = drop m (drop (t - na) (take t xs))"
    by (simp only: drop_drop append_Nil2)
  have il: "is_list h' l (drop m (drop (t - na) (take t xs)))"
    using list_below_is_list[OF q(5)] unfolding dl .
  have il4: "is_list (heap ?st4) (?fs' ! m) (drop m (drop (t - na) (take t xs)))"
  proof -
    have i1: "is_list (h'(stack st := VECTOR xs'')) l (drop m (drop (t - na) (take t xs)))"
      using is_list_upd_vector[OF il] q(1) p2 by simp
    have i2: "(h'(stack st := VECTOR xs'')) fr2 = VECTOR (fs2[m := l])"
      using q(4) p2 by simp
    have "is_list (h'(stack st := VECTOR xs'', fr2 := VECTOR ?fs')) l
                 (drop m (drop (t - na) (take t xs)))"
      using is_list_upd_vector[OF i1 i2] .
    then show ?thesis unfolding nth using p2 by simp
  qed
  have e4: "heap ?st4 (env st) = PAIR fr2 d" using henv ne p2 by auto
  have f4: "heap ?st4 fr2 = VECTOR ?fs'" by simp
  have l4: "m < length ?fs'" using len1 p2 by simp
  have s4: "stack_top ?st4 = int (t - na)" "env ?st4 = env st" using t3 p2 by auto
  show ?thesis
    apply (rule exI[of _ ?st4], rule exI[of _ fr2], rule exI[of _ ?fs'])
    using run e4 f4 l4 tk il4 s4 apply (simp only: simp_thms)
    done
qed

text \<open>
  Claim C8.  Let the operand of an \<^verbatim>\<open>argsdot\<close> instruction be \<open>n\<close>.  With fewer than
  \<open>n\<close> arguments the opcode is an arg-count error: it ends in \<^verbatim>\<open>VM_RETURN(error_sym)\<close>.
  With \<open>0 \<le> n \<le> n_args\<close>, the arguments on the value stack (a vector other than the
  top frame, whose indices fit an \<^verbatim>\<open>int\<close>), and the environment a cons of a frame, all
  in allocated cells, the opcode continues at \<^verbatim>\<open>vm_begin\<close>; the environment register
  is the same cons; its top frame \<open>fr'\<close> has more than \<open>n\<close> slots, of which slots
  \<open>0\<close> to \<open>n - 1\<close> hold the first \<open>n\<close> arguments, leftmost first, and slot \<open>n\<close> holds
  a proper list of the remaining arguments in their order from left to right; the
  arguments are off the stack.
\<close>

theorem argsdot_binds_arguments:
  assumes o: "operand (heap st) instr n"
  shows "(n_args st < n \<longrightarrow> op_argsdot st instr = VM_RETURN st error_sym)
       \<and> (0 \<le> n \<and> n \<le> n_args st
          \<and> heap st (stack st) = VECTOR xs \<and> n_args st \<le> stack_top st
          \<and> stack_top st \<le> int (length xs) \<and> stack_top st \<le> 2147483647
          \<and> heap st (env st) = PAIR fr d \<and> heap st fr = VECTOR fs \<and> fr \<noteq> stack st
          \<and> stack st < next_cell st \<and> env st < next_cell st \<and> fr < next_cell st \<longrightarrow>
          (\<exists>st' fr' fs'. op_argsdot st instr = Inr (At_vm_begin st')
             \<and> env st' = env st \<and> heap st' (env st) = PAIR fr' d \<and> heap st' fr' = VECTOR fs'
             \<and> nat n < length fs' \<and> take (nat n) fs' = take (nat n) (stack_args st xs)
             \<and> is_list (heap st') (fs' ! nat n) (drop (nat n) (stack_args st xs))
             \<and> stack_top st' = stack_top st - n_args st))"
proof (intro conjI impI)
  obtain a1 where a1: "ARG1 (heap st) instr = Inr a1" "LONG (heap st) a1 = Inr n"
    using o by (auto simp: operand_def bnd_def split: sum.splits)
  assume "n_args st < n"
  then show "op_argsdot st instr = VM_RETURN st error_sym"
    using a1 by (simp add: op_argsdot_def VM_ASSERT_def)
next
  assume h: "0 \<le> n \<and> n \<le> n_args st
          \<and> heap st (stack st) = VECTOR xs \<and> n_args st \<le> stack_top st
          \<and> stack_top st \<le> int (length xs) \<and> stack_top st \<le> 2147483647
          \<and> heap st (env st) = PAIR fr d \<and> heap st fr = VECTOR fs \<and> fr \<noteq> stack st
          \<and> stack st < next_cell st \<and> env st < next_cell st \<and> fr < next_cell st"
  define m where "m = nat n"
  define na where "na = nat (n_args st)"
  define t where "t = nat (stack_top st)"
  have c: "n = int m" "n_args st = int na" "stack_top st = int t"
    "m \<le> na" "na \<le> t" "t \<le> length xs" "t \<le> 2147483647"
    using h by (auto simp: m_def na_def t_def)
  have o': "operand (heap st) instr (int m)" using o c by simp
  have sa: "stack_args st xs = drop (t - na) (take t xs)"
    using c by (simp add: stack_args_def nat_diff_distrib)
  have p: "heap st (stack st) = VECTOR xs" "heap st (env st) = PAIR fr d"
    "heap st fr = VECTOR fs" "fr \<noteq> stack st"
    "stack st < next_cell st" "env st < next_cell st" "fr < next_cell st"
    using h by simp_all
  have g: "nat n = m" "stack_top st - n_args st = int (t - na)"
    using c by auto
  show "\<exists>st' fr' fs'. op_argsdot st instr = Inr (At_vm_begin st')
             \<and> env st' = env st \<and> heap st' (env st) = PAIR fr' d \<and> heap st' fr' = VECTOR fs'
             \<and> nat n < length fs' \<and> take (nat n) fs' = take (nat n) (stack_args st xs)
             \<and> is_list (heap st') (fs' ! nat n) (drop (nat n) (stack_args st xs))
             \<and> stack_top st' = stack_top st - n_args st"
    unfolding sa g by (rule argsdot_frame[OF o' p(1) c(3,2,4,5,6,7) p(2-7)])
qed

theorem argsdot_binds_arguments_witness:
  "operand (heap ex_argsdot) 13 2 \<and> (0::int) \<le> 2 \<and> 2 \<le> n_args ex_argsdot
   \<and> heap ex_argsdot (stack ex_argsdot) = VECTOR [33, 34, 35, 36, 0]
   \<and> n_args ex_argsdot \<le> stack_top ex_argsdot
   \<and> stack_top ex_argsdot \<le> int (length [33, 34, 35, 36, 0::nat])
   \<and> stack_top ex_argsdot \<le> 2147483647
   \<and> heap ex_argsdot (env ex_argsdot) = PAIR 18 0 \<and> heap ex_argsdot 18 = VECTOR [0]
   \<and> 18 \<noteq> stack ex_argsdot \<and> stack ex_argsdot < next_cell ex_argsdot
   \<and> env ex_argsdot < next_cell ex_argsdot \<and> 18 < next_cell ex_argsdot
   \<and> stack_args ex_argsdot [33, 34, 35, 36, 0] = [33, 34, 35, 36]
   \<and> (\<exists>st' fr' fs'. op_argsdot ex_argsdot 13 = Inr (At_vm_begin st')
         \<and> heap st' 17 = PAIR fr' 0 \<and> heap st' fr' = VECTOR fs'
         \<and> 2 < length fs' \<and> take 2 fs' = [33, 34]
         \<and> is_list (heap st') (fs' ! 2) [35, 36]
         \<and> stack_top st' = 0)"
proof -
  have o: "operand (heap ex_argsdot) 13 2"
    by (simp add: ex_argsdot_def ex_bad_def ex_world_def ex_heap_def operand_def
        ARG1_def car_def cdr_def LONG_def)
  have h: "(0::int) \<le> 2 \<and> 2 \<le> n_args ex_argsdot
   \<and> heap ex_argsdot (stack ex_argsdot) = VECTOR [33, 34, 35, 36, 0]
   \<and> n_args ex_argsdot \<le> stack_top ex_argsdot
   \<and> stack_top ex_argsdot \<le> int (length [33, 34, 35, 36, 0::nat])
   \<and> stack_top ex_argsdot \<le> 2147483647
   \<and> heap ex_argsdot (env ex_argsdot) = PAIR 18 0 \<and> heap ex_argsdot 18 = VECTOR [0]
   \<and> 18 \<noteq> stack ex_argsdot \<and> stack ex_argsdot < next_cell ex_argsdot
   \<and> env ex_argsdot < next_cell ex_argsdot \<and> 18 < next_cell ex_argsdot"
    by (simp add: ex_argsdot_def ex_bad_def ex_world_def ex_heap_def)
  have v: "stack_args ex_argsdot [33, 34, 35, 36, 0] = [33, 34, 35, 36]"
    "env ex_argsdot = 17" "stack_top ex_argsdot - n_args ex_argsdot = 0"
    by (simp_all add: ex_argsdot_def ex_bad_def ex_world_def stack_args_def)
  have "\<exists>st' fr' fs'. op_argsdot ex_argsdot 13 = Inr (At_vm_begin st')
         \<and> env st' = env ex_argsdot
         \<and> heap st' (env ex_argsdot) = PAIR fr' 0 \<and> heap st' fr' = VECTOR fs'
         \<and> nat 2 < length fs'
         \<and> take (nat 2) fs' = take (nat 2) (stack_args ex_argsdot [33, 34, 35, 36, 0])
         \<and> is_list (heap st') (fs' ! nat 2) (drop (nat 2) (stack_args ex_argsdot [33, 34, 35, 36, 0]))
         \<and> stack_top st' = stack_top ex_argsdot - n_args ex_argsdot"
    by (rule argsdot_binds_arguments[OF o, of "[33, 34, 35, 36, 0]" 18 0 "[0]",
          THEN conjunct2, rule_format, OF h])
  then have "\<exists>st' fr' fs'. op_argsdot ex_argsdot 13 = Inr (At_vm_begin st')
         \<and> heap st' 17 = PAIR fr' 0 \<and> heap st' fr' = VECTOR fs'
         \<and> 2 < length fs' \<and> take 2 fs' = [33, 34]
         \<and> is_list (heap st') (fs' ! 2) [35, 36]
         \<and> stack_top st' = 0"
    unfolding v by (elim exE conjE, intro exI conjI) simp_all
  then show ?thesis using o h v by simp
qed

section \<open>Properties of the heap lists\<close>

subsection \<open>Neighbours in a list\<close>

lemma succ_in_Cons: "succ_in (y # ys) x = (if x = y then first_of ys else succ_in ys x)"
  by (cases ys) (auto simp: first_of_def)

lemma pred_in_Cons: "pred_in (y # ys) x = (if first_of ys = Some x then Some y else pred_in ys x)"
  by (cases ys) (auto simp: first_of_def)

declare succ_in.simps [simp del] pred_in.simps [simp del]

lemma succ_in_Nil [simp]: "succ_in [] x = None" by (simp add: succ_in.simps)
lemma pred_in_Nil [simp]: "pred_in [] x = None" by (simp add: pred_in.simps)

lemma first_of_simps [simp]: "first_of [] = None" "first_of (x # xs) = Some x"
  by (simp_all add: first_of_def)

lemma last_of_simps [simp]: "last_of [] = None"
  "last_of (x # xs) = (if xs = [] then Some x else last_of xs)"
  by (simp_all add: last_of_def)

lemma first_of_mem: "first_of xs = Some x \<Longrightarrow> x \<in> set xs"
  by (cases xs) auto

lemma last_of_mem: "last_of xs = Some x \<Longrightarrow> x \<in> set xs"
  by (auto simp: last_of_def split: if_splits)

lemma first_of_None [simp]: "first_of xs = None \<longleftrightarrow> xs = []"
  by (cases xs) auto

lemma last_of_None [simp]: "last_of xs = None \<longleftrightarrow> xs = []"
  by (simp add: last_of_def)

lemma succ_in_mem: "succ_in xs x = Some y \<Longrightarrow> x \<in> set xs \<and> y \<in> set xs"
  by (induction xs) (auto simp: succ_in_Cons dest: first_of_mem split: if_splits)

lemma pred_in_mem: "pred_in xs x = Some y \<Longrightarrow> x \<in> set xs \<and> y \<in> set xs"
  by (induction xs) (auto simp: pred_in_Cons dest: first_of_mem split: if_splits)

lemma succ_in_notin [simp]: "x \<notin> set xs \<Longrightarrow> succ_in xs x = None"
  using succ_in_mem[of xs x] by (cases "succ_in xs x") auto

lemma pred_in_notin [simp]: "x \<notin> set xs \<Longrightarrow> pred_in xs x = None"
  using pred_in_mem[of xs x] by (cases "pred_in xs x") auto

lemma pred_in_first: "distinct xs \<Longrightarrow> first_of xs = Some x \<Longrightarrow> pred_in xs x = None"
  by (cases xs) (auto simp: pred_in_Cons dest: first_of_mem)

lemma succ_pred: "distinct xs \<Longrightarrow> succ_in xs x = Some y \<longleftrightarrow> pred_in xs y = Some x"
proof (induction xs)
  case Nil
  then show ?case by simp
next
  case (Cons a xs)
  have d: "distinct xs" "a \<notin> set xs" using Cons.prems by auto
  have IH: "succ_in xs x = Some y \<longleftrightarrow> pred_in xs y = Some x" using Cons.IH d by simp
  show ?case
  proof (cases "x = a")
    case True
    have "pred_in xs y \<noteq> Some a" using pred_in_mem[of xs y a] d by auto
    then show ?thesis using True by (simp add: succ_in_Cons pred_in_Cons)
  next
    case False
    show ?thesis
    proof (cases "first_of xs = Some y")
      case True
      then have "pred_in xs y = None" using d by (intro pred_in_first)
      then show ?thesis using False True IH by (simp add: succ_in_Cons pred_in_Cons)
    next
      case f: False
      then show ?thesis using False IH by (simp add: succ_in_Cons pred_in_Cons)
    qed
  qed
qed

lemma pred_in_None_iff:
  "distinct xs \<Longrightarrow> x \<in> set xs \<Longrightarrow> pred_in xs x = None \<longleftrightarrow> first_of xs = Some x"
  by (induction xs) (auto simp: pred_in_Cons dest: first_of_mem)

lemma succ_in_None_iff:
  "distinct xs \<Longrightarrow> x \<in> set xs \<Longrightarrow> succ_in xs x = None \<longleftrightarrow> last_of xs = Some x"
  by (induction xs) (auto simp: succ_in_Cons dest: last_of_mem)

lemma first_of_remove1:
  "distinct xs \<Longrightarrow> first_of (remove1 a xs) = (if first_of xs = Some a then succ_in xs a else first_of xs)"
  by (cases xs) (auto simp: succ_in_Cons)

lemma succ_in_remove1:
  "distinct xs \<Longrightarrow> x \<noteq> a \<Longrightarrow>
   succ_in (remove1 a xs) x = (if succ_in xs x = Some a then succ_in xs a else succ_in xs x)"
  by (induction xs) (auto simp: succ_in_Cons first_of_remove1 dest: first_of_mem succ_in_mem)

lemma pred_in_remove1:
  "distinct xs \<Longrightarrow> x \<noteq> a \<Longrightarrow>
   pred_in (remove1 a xs) x = (if pred_in xs x = Some a then pred_in xs a else pred_in xs x)"
proof (induction xs)
  case Nil
  then show ?case by simp
next
  case (Cons b xs)
  then show ?case
    using pred_in_first[of xs]
    by (auto simp: pred_in_Cons first_of_remove1 succ_pred dest: first_of_mem pred_in_mem)
qed

lemma last_of_remove1:
  "distinct xs \<Longrightarrow> last_of (remove1 a xs) = (if last_of xs = Some a then pred_in xs a else last_of xs)"
proof (induction xs)
  case Nil
  then show ?case by simp
next
  case (Cons b xs)
  then show ?case
    by (cases xs) (auto simp: pred_in_Cons dest: last_of_mem)
qed

lemma first_of_append: "first_of (xs @ ys) = (if xs = [] then first_of ys else first_of xs)"
  by (cases xs) auto

lemma last_of_append: "last_of (xs @ ys) = (if ys = [] then last_of xs else last_of ys)"
  by (simp add: last_of_def)

lemma succ_in_append:
  "distinct (xs @ ys) \<Longrightarrow>
   succ_in (xs @ ys) x = (if x \<in> set xs then (if last_of xs = Some x then first_of ys else succ_in xs x)
                          else succ_in ys x)"
  by (induction xs) (auto simp: succ_in_Cons first_of_append dest: last_of_mem)

lemma pred_in_append:
  "distinct (xs @ ys) \<Longrightarrow>
   pred_in (xs @ ys) x = (if x \<in> set ys then (if first_of ys = Some x then last_of xs else pred_in ys x)
                          else pred_in xs x)"
proof (induction xs)
  case Nil
  then show ?case by (auto simp: pred_in_first)
next
  case (Cons a xs)
  then show ?case
    by (auto simp: pred_in_Cons first_of_append dest: first_of_mem)
qed

lemma pred_in_neq: "distinct xs \<Longrightarrow> pred_in xs x \<noteq> Some x"
proof (induction xs)
  case Nil
  then show ?case by simp
next
  case (Cons a xs)
  then show ?case
    using pred_in_mem[of xs x a] by (auto simp: pred_in_Cons dest: first_of_mem)
qed

lemma succ_in_neq: "distinct xs \<Longrightarrow> succ_in xs x \<noteq> Some x"
  using pred_in_neq[of xs x] succ_pred[of xs x x] by simp

declare succ_in_notin [simp del] pred_in_notin [simp del]

subsection \<open>The list operations\<close>

lemma move_object_to_head_ok:
  assumes S: "dll_ok h src S" and D: "dll_ok h dest D" and dis: "set S \<inter> set D = {}"
    and mem: "obj \<in> set S"
  shows "\<exists>h' src' dest'. move_object_to_head obj (h, src, dest) = (h', src', dest')
     \<and> dll_ok h' src' (remove1 obj S) \<and> dll_ok h' dest' (obj # D)
     \<and> (\<forall>a. color (h' a) = color (h a) \<and> data (h' a) = data (h a))
     \<and> (\<forall>a. a \<notin> set S \<union> set D \<longrightarrow> h' a = h a)"
proof -
  define p where "p = pred_in S obj"
  define n where "n = succ_in S obj"
  have dS: "distinct S" and dD: "distinct D" using S D by (auto simp: dll_ok_def)
  have ptr: "prev (h obj) = p" "next_obj (h obj) = n"
    using S mem by (auto simp: dll_ok_def p_def n_def)
  have pS: "x \<in> set S \<and> x \<noteq> obj" if "p = Some x" for x
  proof -
    have a: "pred_in S obj = Some x" using that by (simp add: p_def)
    show ?thesis using pred_in_mem[OF a] pred_in_neq[OF dS, of obj] a by auto
  qed
  have nS: "x \<in> set S \<and> x \<noteq> obj" if "n = Some x" for x
  proof -
    have a: "succ_in S obj = Some x" using that by (simp add: n_def)
    show ?thesis using succ_in_mem[OF a] succ_in_neq[OF dS, of obj] a by auto
  qed
  have objD: "obj \<notin> set D" using dis mem by auto
  \<comment> \<open>the unlinking\<close>
  define h1 where "h1 = (case p of None \<Rightarrow> h | Some x \<Rightarrow> h(x := (h x)\<lparr>next_obj := n\<rparr>))"
  define src1 where "src1 = (case p of None \<Rightarrow> src\<lparr>head := n\<rparr> | Some x \<Rightarrow> src)"
  have u1: "unlink_prev obj (h, src) = (h1, src1)"
    using ptr by (simp add: unlink_prev_def h1_def src1_def split: option.splits)
  have h1obj: "h1 obj = h obj" using pS by (auto simp: h1_def split: option.splits)
  define h2 where "h2 = (case n of None \<Rightarrow> h1 | Some x \<Rightarrow> h1(x := (h1 x)\<lparr>prev := p\<rparr>))"
  define src2 where "src2 = (case n of None \<Rightarrow> src1\<lparr>tail := p\<rparr> | Some x \<Rightarrow> src1)"
  have u2: "unlink_next obj (h1, src1) = (h2, src2)"
    using ptr h1obj by (simp add: unlink_next_def h2_def src2_def split: option.splits)
  define h3 where "h3 = (case first_of D of
        None \<Rightarrow> h2(obj := (h2 obj)\<lparr>next_obj := None, prev := None\<rparr>)
      | Some dh \<Rightarrow> (h2(obj := (h2 obj)\<lparr>prev := None, next_obj := Some dh\<rparr>))
                     (dh := (h2 dh)\<lparr>prev := Some obj\<rparr>))"
  define dest1 where "dest1 = (case first_of D of
        None \<Rightarrow> dest\<lparr>head := Some obj, tail := Some obj\<rparr>
      | Some dh \<Rightarrow> dest\<lparr>head := Some obj\<rparr>)"
  have hd: "head dest = first_of D" using D by (simp add: dll_ok_def)
  have fD: "\<And>x. first_of D = Some x \<Longrightarrow> x \<in> set D \<and> x \<noteq> obj"
    using first_of_mem objD by fastforce
  have u3: "link_head obj (h2, dest) = (h3, dest1)"
    using hd fD by (auto simp: link_head_def h3_def dest1_def Let_def split: option.splits)
  have mv: "move_object_to_head obj (h, src, dest) =
     (h3, src2\<lparr>num_objects := num_objects src2 - 1\<rparr>,
          dest1\<lparr>num_objects := num_objects dest1 + 1\<rparr>)"
    by (simp add: move_object_to_head_def u1 u2 u3)
  \<comment> \<open>the pointers after the move\<close>
  have nx: "\<And>x. x \<noteq> obj \<Longrightarrow> next_obj (h3 x) = (if p = Some x then n else next_obj (h x))"
    using fD pS nS by (auto simp: h3_def h2_def h1_def split: option.splits)
  have pv: "\<And>x. x \<noteq> obj \<Longrightarrow>
      prev (h3 x) = (if first_of D = Some x then Some obj
                     else if n = Some x then p else prev (h x))"
    using fD pS nS dis by (auto simp: h3_def h2_def h1_def split: option.splits)
  have ob: "next_obj (h3 obj) = first_of D" "prev (h3 obj) = None"
    using fD by (auto simp: h3_def split: option.splits)
  have cd: "\<And>a. color (h3 a) = color (h a) \<and> data (h3 a) = data (h a)"
    by (auto simp: h3_def h2_def h1_def split: option.splits)
  have fr: "\<And>a. a \<notin> set S \<union> set D \<Longrightarrow> h3 a = h a"
    using fD pS nS mem by (auto simp: h3_def h2_def h1_def split: option.splits)
  \<comment> \<open>the source list\<close>
  have sh: "head src2 = first_of (remove1 obj S)"
  proof -
    have "head src2 = (if p = None then n else head src)"
      by (auto simp: src2_def src1_def split: option.splits)
    also have "\<dots> = first_of (remove1 obj S)"
      using S mem pred_in_None_iff[OF dS mem] by (simp add: first_of_remove1 dll_ok_def p_def n_def)
    finally show ?thesis .
  qed
  have st: "tail src2 = last_of (remove1 obj S)"
  proof -
    have "tail src2 = (if n = None then p else tail src)"
      by (auto simp: src2_def src1_def split: option.splits)
    also have "\<dots> = last_of (remove1 obj S)"
      using S mem succ_in_None_iff[OF dS mem] by (simp add: last_of_remove1 dll_ok_def p_def n_def)
    finally show ?thesis .
  qed
  have sn: "num_objects src2 - 1 = int (length (remove1 obj S))"
  proof -
    have "num_objects src2 = num_objects src"
      by (auto simp: src2_def src1_def split: option.splits)
    moreover obtain k where "length S = Suc k" using mem by (cases S) auto
    moreover have "num_objects src = int (length S)" using S by (simp add: dll_ok_def)
    ultimately show ?thesis using mem by (simp add: length_remove1)
  qed
  have sp: "\<forall>x \<in> set (remove1 obj S).
      next_obj (h3 x) = succ_in (remove1 obj S) x \<and> prev (h3 x) = pred_in (remove1 obj S) x"
  proof
    fix x assume "x \<in> set (remove1 obj S)"
    then have x: "x \<in> set S" "x \<noteq> obj" using dS by auto
    then have xD: "first_of D \<noteq> Some x" using fD dis by auto
    have hx: "next_obj (h x) = succ_in S x" "prev (h x) = pred_in S x"
      using S x by (auto simp: dll_ok_def)
    have a: "p = Some x \<longleftrightarrow> succ_in S x = Some obj"
      unfolding p_def using succ_pred[OF dS, of x obj] by simp
    have b: "n = Some x \<longleftrightarrow> pred_in S x = Some obj"
      unfolding n_def using succ_pred[OF dS, of obj x] by simp
    show "next_obj (h3 x) = succ_in (remove1 obj S) x \<and> prev (h3 x) = pred_in (remove1 obj S) x"
      unfolding nx[OF x(2)] pv[OF x(2)] succ_in_remove1[OF dS x(2)] pred_in_remove1[OF dS x(2)]
      using xD hx a b by (simp add: p_def n_def)
  qed
  have Sok: "dll_ok h3 (src2\<lparr>num_objects := num_objects src2 - 1\<rparr>) (remove1 obj S)"
    using dS sh st sn sp by (simp add: dll_ok_def)
  \<comment> \<open>the destination list\<close>
  have dp: "\<forall>x \<in> set (obj # D).
      next_obj (h3 x) = succ_in (obj # D) x \<and> prev (h3 x) = pred_in (obj # D) x"
  proof
    fix x assume xin: "x \<in> set (obj # D)"
    show "next_obj (h3 x) = succ_in (obj # D) x \<and> prev (h3 x) = pred_in (obj # D) x"
    proof (cases "x = obj")
      case True
      then show ?thesis using ob objD fD pred_in_notin[OF objD]
        by (auto simp: succ_in_Cons pred_in_Cons)
    next
      case False
      then have x: "x \<in> set D" using xin by simp
      then have xS: "x \<notin> set S" using dis by auto
      have hx: "next_obj (h x) = succ_in D x" "prev (h x) = pred_in D x"
        using D x by (auto simp: dll_ok_def)
      have np: "p \<noteq> Some x" "n \<noteq> Some x" using pS nS xS by auto
      show ?thesis
        unfolding nx[OF False] pv[OF False] using np hx False
        by (simp add: succ_in_Cons pred_in_Cons)
    qed
  qed
  have Dok: "dll_ok h3 (dest1\<lparr>num_objects := num_objects dest1 + 1\<rparr>) (obj # D)"
  proof -
    have "head dest1 = Some obj" by (auto simp: dest1_def split: option.splits)
    moreover have "tail dest1 = last_of (obj # D)"
      using D by (auto simp: dest1_def dll_ok_def split: option.splits)
    moreover have "num_objects dest1 + 1 = int (length (obj # D))"
      using D by (auto simp: dest1_def dll_ok_def split: option.splits)
    ultimately show ?thesis using dD objD dp by (simp add: dll_ok_def)
  qed
  show ?thesis
    using mv Sok Dok cd fr by blast
qed

lemma append_to_tail_ok:
  assumes A: "dll_ok h dest A" and Os: "dll_ok h src Os" and dis: "set A \<inter> set Os = {}"
  shows "\<exists>h' dest' src'. append_to_tail (h, dest, src) = (h', dest', src')
     \<and> dll_ok h' dest' (A @ Os) \<and> dll_ok h' src' []
     \<and> (\<forall>a. color (h' a) = color (h a) \<and> data (h' a) = data (h a))"
proof -
  have dA: "distinct A" and dOs: "distinct Os" using A Os by (auto simp: dll_ok_def)
  have dAO: "distinct (A @ Os)" using dA dOs dis by auto
  have hA: "head dest = first_of A" "tail dest = last_of A" "num_objects dest = int (length A)"
    and hO: "head src = first_of Os" "tail src = last_of Os" "num_objects src = int (length Os)"
    using A Os by (auto simp: dll_ok_def)
  have pA: "\<And>x. x \<in> set A \<Longrightarrow> next_obj (h x) = succ_in A x \<and> prev (h x) = pred_in A x"
    and pO: "\<And>x. x \<in> set Os \<Longrightarrow> next_obj (h x) = succ_in Os x \<and> prev (h x) = pred_in Os x"
    using A Os by (auto simp: dll_ok_def)
  have e: "dll_ok hh (src\<lparr>head := None, tail := None, num_objects := 0\<rparr>) []" for hh
    by (simp add: dll_ok_def)
  show ?thesis
  proof (cases "A = []")
    case True
    have "append_to_tail (h, dest, src) =
        (h, dest\<lparr>head := head src, tail := tail src,
                  num_objects := num_objects dest + num_objects src\<rparr>,
            src\<lparr>head := None, tail := None, num_objects := 0\<rparr>)"
      using hA True by (simp add: append_to_tail_def)
    moreover have "dll_ok h (dest\<lparr>head := head src, tail := tail src,
                  num_objects := num_objects dest + num_objects src\<rparr>) (A @ Os)"
      using True hA hO dOs pO by (simp add: dll_ok_def)
    ultimately show ?thesis using e by simp
  next
    case An: False
    then obtain dt where dt: "last_of A = Some dt" by (cases "last_of A") auto
    have dtA: "dt \<in> set A" using last_of_mem[OF dt] .
    show ?thesis
    proof (cases "Os = []")
      case True
      have "append_to_tail (h, dest, src) = (h, dest, src)"
        using hA hO dt True by (simp add: append_to_tail_def)
      then show ?thesis using True A Os by simp
    next
      case On: False
      then obtain sh where sh: "first_of Os = Some sh" by (cases Os) auto
      have shO: "sh \<in> set Os" using first_of_mem[OF sh] .
      have ne: "dt \<noteq> sh" "sh \<notin> set A" "dt \<notin> set Os" using dtA shO dis by auto
      define h2 where "h2 = (h(dt := (h dt)\<lparr>next_obj := Some sh\<rparr>))
                              (sh := (h sh)\<lparr>prev := Some dt\<rparr>)"
      have ap: "append_to_tail (h, dest, src) =
        (h2, dest\<lparr>tail := tail src, num_objects := num_objects dest + num_objects src\<rparr>,
             src\<lparr>head := None, tail := None, num_objects := 0\<rparr>)"
        using hA hO dt sh ne by (simp add: append_to_tail_def h2_def Let_def)
      have nx: "\<And>x. next_obj (h2 x) = (if x = dt then Some sh else next_obj (h x))"
        using ne by (auto simp: h2_def)
      have pv: "\<And>x. prev (h2 x) = (if x = sh then Some dt else prev (h x))"
        using ne by (auto simp: h2_def)
      have cd: "\<And>a. color (h2 a) = color (h a) \<and> data (h2 a) = data (h a)"
        by (auto simp: h2_def)
      have pt: "\<forall>x \<in> set (A @ Os).
          next_obj (h2 x) = succ_in (A @ Os) x \<and> prev (h2 x) = pred_in (A @ Os) x"
      proof
        fix x assume x: "x \<in> set (A @ Os)"
        show "next_obj (h2 x) = succ_in (A @ Os) x \<and> prev (h2 x) = pred_in (A @ Os) x"
        proof (cases "x \<in> set A")
          case True
          then have xO: "x \<notin> set Os" using dis by auto
          have l: "last_of A = Some x \<longleftrightarrow> x = dt" using dt by auto
          show ?thesis
            unfolding nx pv succ_in_append[OF dAO] pred_in_append[OF dAO]
            using True xO pA[OF True] l sh shO by auto
        next
          case False
          then have xO: "x \<in> set Os" using x by auto
          have f: "first_of Os = Some x \<longleftrightarrow> x = sh" using sh by auto
          show ?thesis
            unfolding nx pv succ_in_append[OF dAO] pred_in_append[OF dAO]
            using False xO pO[OF xO] f dt dtA by auto
        qed
      qed
      have "dll_ok h2 (dest\<lparr>tail := tail src, num_objects := num_objects dest + num_objects src\<rparr>)
              (A @ Os)"
        using dAO hA hO An On pt
        by (simp add: dll_ok_def first_of_append last_of_append)
      then show ?thesis using ap e cd by simp
    qed
  qed
qed

subsection \<open>The marking phase\<close>

lemma same_rest_refl [simp]: "same_rest RS st st"
  by (simp add: same_rest_def)

lemma same_rest_trans: "same_rest RS a b \<Longrightarrow> same_rest RS b c \<Longrightarrow> same_rest RS a c"
  by (simp add: same_rest_def)

lemma same_rest_refs: "same_rest RS st st' \<Longrightarrow> refs st' = refs st"
  by (auto simp: same_rest_def refs_def)

lemma dll_ok_cong_ptrs:
  "(\<And>x. next_obj (h' x) = next_obj (h x) \<and> prev (h' x) = prev (h x)) \<Longrightarrow>
   dll_ok h' L xs = dll_ok h L xs"
  by (simp add: dll_ok_def)

lemma set_color_ok:
  "heap_lists st A Os \<Longrightarrow> heap_lists (set_color obj st) A Os"
  "obj \<in> RS \<Longrightarrow> same_rest RS st (set_color obj st)"
  "color (cells (set_color obj st) a) = (if a = obj then current_color st else color (cells st a))"
proof -
  have p: "\<And>x. next_obj (cells (set_color obj st) x) = next_obj (cells st x)
             \<and> prev (cells (set_color obj st) x) = prev (cells st x)"
    by (simp add: set_color_def)
  show "heap_lists st A Os \<Longrightarrow> heap_lists (set_color obj st) A Os"
    unfolding heap_lists_def dll_ok_cong_ptrs[of "cells (set_color obj st)" "cells st", OF p]
    by (simp add: set_color_def)
  show "obj \<in> RS \<Longrightarrow> same_rest RS st (set_color obj st)"
    by (simp add: set_color_def same_rest_def)
  show "color (cells (set_color obj st) a) = (if a = obj then current_color st else color (cells st a))"
    by (simp add: set_color_def)
qed

lemma move_to_old_ok:
  assumes hl: "heap_lists st A Os" and mem: "obj \<in> set A"
  shows "heap_lists (move_to_old obj st) (remove1 obj A) (obj # Os)"
    and "same_rest RS st (move_to_old obj st)"
    and "\<And>a. color (cells (move_to_old obj st) a) = color (cells st a)"
proof -
  have A: "dll_ok (cells st) (Active_Heap_Objects st) A"
    and B: "dll_ok (cells st) (Old_Heap_Objects st) Os" and dis: "set A \<inter> set Os = {}"
    using hl by (auto simp: heap_lists_def)
  from move_object_to_head_ok[OF A B dis mem] obtain h' src' dest' where
    m: "move_object_to_head obj (cells st, Active_Heap_Objects st, Old_Heap_Objects st)
          = (h', src', dest')"
    and r: "dll_ok h' src' (remove1 obj A)" "dll_ok h' dest' (obj # Os)"
      "\<forall>a. color (h' a) = color (cells st a) \<and> data (h' a) = data (cells st a)"
    by blast
  have eq: "move_to_old obj st =
      st\<lparr>cells := h', Active_Heap_Objects := src', Old_Heap_Objects := dest'\<rparr>"
    by (simp add: move_to_old_def m)
  have d: "distinct A" using A by (simp add: dll_ok_def)
  have "set (remove1 obj A) \<inter> set (obj # Os) = {}"
    using dis d mem by auto
  then show "heap_lists (move_to_old obj st) (remove1 obj A) (obj # Os)"
    unfolding eq using r by (simp add: heap_lists_def)
  show "same_rest RS st (move_to_old obj st)"
    unfolding eq using r(3) by (simp add: same_rest_def)
  show "\<And>a. color (cells (move_to_old obj st) a) = color (cells st a)"
    unfolding eq using r(3) by simp
qed

lemma mark_inv_in_active:
  assumes inv: "mark_inv RS st A Os" and t: "t \<in> RS"
    and c: "color (cells st t) \<noteq> current_color st"
  shows "t \<in> set A"
  using assms by (auto simp: mark_inv_def)

lemma mark_inv_in_old:
  assumes inv: "mark_inv RS st A Os" and t: "t \<in> RS"
    and c: "color (cells st t) = current_color st"
  shows "t \<in> set Os"
  using assms by (auto simp: mark_inv_def)

lemma mark_inv_step:
  assumes inv: "mark_inv RS st A Os" and t: "t \<in> RS" and tA: "t \<in> set A"
    and hl: "heap_lists st' (remove1 t A) (t # Os)"
    and sr: "same_rest RS st st'"
    and col: "\<And>a. color (cells st' a) = (if a = t then current_color st else color (cells st a))"
  shows "mark_inv RS st' (remove1 t A) (t # Os)"
proof -
  have d: "distinct A" using inv by (simp add: mark_inv_def heap_lists_def dll_ok_def)
  have s: "set (remove1 t A) = set A - {t}" using d by simp
  have cc: "current_color st' = current_color st" using sr by (simp add: same_rest_def)
  have rf: "refs st' = refs st" using same_rest_refs[OF sr] .
  show ?thesis
    unfolding mark_inv_def s cc rf using inv t tA hl col
    by (auto simp: mark_inv_def s)
qed

lemma mark_color_move:
  assumes inv: "mark_inv RS st A Os" and t: "t \<in> RS"
    and c: "color (cells st t) \<noteq> current_color st"
  shows "mark_inv RS (set_color t (move_to_old t st)) (remove1 t A) (t # Os)"
    and "same_rest RS st (set_color t (move_to_old t st))"
    and "mark_inv RS (move_to_old t (set_color t st)) (remove1 t A) (t # Os)"
    and "same_rest RS st (move_to_old t (set_color t st))"
proof -
  have tA: "t \<in> set A" using mark_inv_in_active[OF assms] .
  have hl: "heap_lists st A Os" using inv by (simp add: mark_inv_def)
  let ?s1 = "move_to_old t st"
  have 1: "heap_lists ?s1 (remove1 t A) (t # Os)" "same_rest RS st ?s1"
    "\<And>a. color (cells ?s1 a) = color (cells st a)"
    using move_to_old_ok[OF hl tA] by auto
  have cc1: "current_color ?s1 = current_color st" using 1(2) by (simp add: same_rest_def)
  show sr1: "same_rest RS st (set_color t ?s1)"
    using same_rest_trans[OF 1(2) set_color_ok(2)[OF t]] .
  show "mark_inv RS (set_color t ?s1) (remove1 t A) (t # Os)"
    using set_color_ok(1)[OF 1(1)] sr1
    by (intro mark_inv_step[OF inv t tA]) (simp_all add: set_color_ok(3) 1(3) cc1)
  let ?s2 = "set_color t st"
  have 2: "heap_lists ?s2 A Os" "same_rest RS st ?s2" using set_color_ok(1)[OF hl] set_color_ok(2)[OF t] by auto
  have 3: "heap_lists (move_to_old t ?s2) (remove1 t A) (t # Os)" "same_rest RS ?s2 (move_to_old t ?s2)"
    "\<And>a. color (cells (move_to_old t ?s2) a) = color (cells ?s2 a)"
    using move_to_old_ok[OF 2(1) tA] by auto
  show sr2: "same_rest RS st (move_to_old t ?s2)"
    using same_rest_trans[OF 2(2) 3(2)] .
  show "mark_inv RS (move_to_old t ?s2) (remove1 t A) (t # Os)"
    using 3(1) sr2
    by (intro mark_inv_step[OF inv t tA]) (simp_all add: set_color_ok(3) 3(3))
qed

lemma length_remove1_mem: "t \<in> set A \<Longrightarrow> length (remove1 t A) + 1 = length A"
  by (induction A) auto

lemma set_remove1_mem: "t \<in> set A \<Longrightarrow> insert t (set (remove1 t A)) = set A"
  by (induction A) auto

lemma maybe_move_ok:
  assumes inv: "mark_inv RS st A Os" and t: "t \<in> RS"
  shows "\<exists>A' C. mark_inv RS (maybe_move t st) A' (C @ Os) \<and> same_rest RS st (maybe_move t st)
           \<and> t \<in> set (C @ Os) \<and> length A' + length C = length A
           \<and> set A' \<union> set C = set A"
proof (cases "color (cells st t) = current_color st")
  case True
  then have "maybe_move t st = st" by (simp add: maybe_move_def)
  moreover have "t \<in> set Os" using mark_inv_in_old[OF inv t True] .
  ultimately show ?thesis using inv
    by (intro exI[of _ A] exI[of _ "[]"]) simp
next
  case False
  then have e: "maybe_move t st = set_color t (move_to_old t st)" by (simp add: maybe_move_def)
  have tA: "t \<in> set A" using mark_inv_in_active[OF inv t False] .
  have s: "set (remove1 t A) \<union> set [t] = set A" using set_remove1_mem[OF tA] by simp
  show ?thesis
    unfolding e using mark_color_move(1,2)[OF inv t False] length_remove1_mem[OF tA] s
    by (intro exI[of _ "remove1 t A"] exI[of _ "[t]"]) simp
qed

lemma fold_maybe_move_ok:
  assumes "mark_inv RS st A Os" "set ts \<subseteq> RS"
  shows "\<exists>A' C. mark_inv RS (fold maybe_move ts st) A' (C @ Os)
           \<and> same_rest RS st (fold maybe_move ts st)
           \<and> set ts \<subseteq> set (C @ Os) \<and> length A' + length C = length A
           \<and> set A' \<union> set C = set A"
  using assms
proof (induction ts arbitrary: st A Os)
  case Nil
  then show ?case by (intro exI[of _ A] exI[of _ "[]"]) simp
next
  case (Cons t ts)
  from maybe_move_ok[OF Cons.prems(1), of t] Cons.prems(2) obtain A1 C1 where
    1: "mark_inv RS (maybe_move t st) A1 (C1 @ Os)" "same_rest RS st (maybe_move t st)"
       "t \<in> set (C1 @ Os)" "length A1 + length C1 = length A" "set A1 \<union> set C1 = set A"
    by auto
  from Cons.IH[OF 1(1)] Cons.prems(2) obtain A2 C2 where
    2: "mark_inv RS (fold maybe_move ts (maybe_move t st)) A2 (C2 @ C1 @ Os)"
       "same_rest RS (maybe_move t st) (fold maybe_move ts (maybe_move t st))"
       "set ts \<subseteq> set (C2 @ C1 @ Os)" "length A2 + length C2 = length A1"
       "set A2 \<union> set C2 = set A1"
    by auto
  show ?case
    using 1 2 same_rest_trans[OF 1(2) 2(2)]
    by (intro exI[of _ A2] exI[of _ "C2 @ C1"]) auto
qed

lemma scan_fields_ok:
  assumes inv: "mark_inv RS st A Os" and a: "a \<in> set Os"
  shows "\<exists>A' C. mark_inv RS (scan_fields a st) A' (C @ Os)
           \<and> same_rest RS st (scan_fields a st)
           \<and> set (refs st a) \<subseteq> set (C @ Os) \<and> length A' + length C = length A
           \<and> set A' \<union> set C = set A"
proof -
  have "set (refs st a) \<subseteq> RS" using inv a by (auto simp: mark_inv_def)
  from fold_maybe_move_ok[OF inv this] show ?thesis
    by (simp add: scan_fields_def refs_def)
qed

lemma mark_inv_prev:
  assumes inv: "mark_inv RS st A (xs @ a # B)"
  shows "prev (cells st a) = last_of xs"
proof -
  have d: "dll_ok (cells st) (Old_Heap_Objects st) (xs @ a # B)"
    using inv by (simp add: mark_inv_def heap_lists_def)
  then have dd: "distinct (xs @ a # B)" by (simp add: dll_ok_def)
  have "prev (cells st a) = pred_in (xs @ a # B) a" using d by (simp add: dll_ok_def)
  also have "\<dots> = last_of xs" by (simp add: pred_in_append[OF dd])
  finally show ?thesis .
qed

lemma scanned_mono:
  "scanned st B Os \<Longrightarrow> refs st' = refs st \<Longrightarrow> set Os \<subseteq> set Os' \<Longrightarrow> scanned st' B Os'"
  by (auto simp: scanned_def)

lemma scan_loop_ok:
  assumes "mark_inv RS st A Os" "Os = G @ a # B" "scanned st B Os"
  shows "\<exists>st' A' Os'. scan_loop st (Some a) = Some st' \<and> mark_inv RS st' A' Os'
           \<and> scanned st' Os' Os' \<and> same_rest RS st st' \<and> set Os \<subseteq> set Os'
           \<and> length A' + length Os' = length A + length Os
           \<and> set A' \<union> set Os' = set A \<union> set Os"
  using assms
proof (induction "length A + length G" arbitrary: st A Os G a B rule: less_induct)
  case less
  let ?st1 = "scan_fields a st"
  have aO: "a \<in> set Os" using less.prems(2) by simp
  from scan_fields_ok[OF less.prems(1) aO] obtain A1 C where
    1: "mark_inv RS ?st1 A1 (C @ Os)" "same_rest RS st ?st1"
       "set (refs st a) \<subseteq> set (C @ Os)" "length A1 + length C = length A"
       "set A1 \<union> set C = set A"
    by blast
  have rf: "refs ?st1 = refs st" using same_rest_refs[OF 1(2)] .
  have O1: "C @ Os = (C @ G) @ a # B" using less.prems(2) by simp
  have pv: "prev (cells ?st1 a) = last_of (C @ G)"
    using mark_inv_prev[of RS ?st1 A1 "C @ G" a B] 1(1) unfolding O1 by simp
  have sc: "scanned ?st1 (a # B) (C @ Os)"
    using scanned_mono[OF less.prems(3) rf, of "C @ Os"] 1(3) rf
    by (auto simp: scanned_def)
  have unf: "scan_loop st (Some a) = scan_loop ?st1 (last_of (C @ G))"
    by (subst scan_loop.simps) (simp add: pv Let_def)
  show ?case
  proof (cases "C @ G = []")
    case True
    then have e: "C = []" "G = []" by auto
    have "scan_loop st (Some a) = Some ?st1"
      unfolding unf using True by (subst scan_loop.simps) simp
    moreover have "scanned ?st1 Os Os" using sc e less.prems(2) by simp
    ultimately show ?thesis using 1 e
      by (intro exI[of _ ?st1] exI[of _ A1] exI[of _ Os]) simp
  next
    case False
    then obtain G' a' where g: "C @ G = G' @ [a']" by (metis rev_exhaust)
    have O2: "C @ Os = G' @ a' # (a # B)" unfolding O1 g by simp
    have ls: "last_of (C @ G) = Some a'" unfolding g by (simp add: last_of_def)
    have m: "length A1 + length G' < length A + length G"
    proof -
      have "length C + length G = length G' + 1" using arg_cong[OF g, of length] by simp
      then show ?thesis using 1(4) by linarith
    qed
    from less.hyps[OF m 1(1) O2 sc] obtain st' A' Os' where
      r: "scan_loop ?st1 (Some a') = Some st'" "mark_inv RS st' A' Os'"
         "scanned st' Os' Os'" "same_rest RS ?st1 st'" "set (C @ Os) \<subseteq> set Os'"
         "length A' + length Os' = length A1 + length (C @ Os)"
         "set A' \<union> set Os' = set A1 \<union> set (C @ Os)"
      by blast
    have "length A' + length Os' = length A + length Os" using r(6) 1(4) by simp
    moreover have "set A' \<union> set Os' = set A \<union> set Os" using r(7) 1(5) by auto
    moreover have "set Os \<subseteq> set Os'" using r(5) by auto
    ultimately show ?thesis
      unfolding unf ls using r same_rest_trans[OF 1(2) r(4)]
      by (intro exI[of _ st'] exI[of _ A'] exI[of _ Os']) simp
  qed
qed

lemma move_reachable_ok:
  assumes inv: "mark_inv RS st A Os" and sc: "scanned st Os Os"
    and r: "\<And>a. root = Some a \<Longrightarrow> a \<in> RS"
  shows "\<exists>st' A' Os'. move_reachable root st = Some st' \<and> mark_inv RS st' A' Os'
           \<and> scanned st' Os' Os' \<and> same_rest RS st st' \<and> set Os \<subseteq> set Os'
           \<and> (\<forall>a. root = Some a \<longrightarrow> a \<in> set Os')
           \<and> length A' + length Os' = length A + length Os
           \<and> set A' \<union> set Os' = set A \<union> set Os"
proof (cases root)
  case None
  then show ?thesis using inv sc
    by (intro exI[of _ st] exI[of _ A] exI[of _ Os]) (simp add: move_reachable_def)
next
  case (Some a)
  then have aR: "a \<in> RS" using r by simp
  show ?thesis
  proof (cases "color (cells st a) = current_color st")
    case True
    have "a \<in> set Os" using mark_inv_in_old[OF inv aR True] .
    then show ?thesis using inv sc Some True
      by (intro exI[of _ st] exI[of _ A] exI[of _ Os]) (simp add: move_reachable_def)
  next
    case False
    let ?st1 = "move_to_old a (set_color a st)"
    have tA: "a \<in> set A" using mark_inv_in_active[OF inv aR False] .
    have 1: "mark_inv RS ?st1 (remove1 a A) (a # Os)" "same_rest RS st ?st1"
      using mark_color_move(3,4)[OF inv aR False] by auto
    have hd: "head (Old_Heap_Objects ?st1) = Some a"
      using 1(1) by (simp add: mark_inv_def heap_lists_def dll_ok_def)
    have rf: "refs ?st1 = refs st" using same_rest_refs[OF 1(2)] .
    have sc1: "scanned ?st1 Os (a # Os)"
      using scanned_mono[OF sc rf, of "a # Os"] by auto
    from scan_loop_ok[OF 1(1) _ sc1, of "[]" a] obtain st' A' Os' where
      s: "scan_loop ?st1 (Some a) = Some st'" "mark_inv RS st' A' Os'"
         "scanned st' Os' Os'" "same_rest RS ?st1 st'" "set (a # Os) \<subseteq> set Os'"
         "length A' + length Os' = length (remove1 a A) + length (a # Os)"
         "set A' \<union> set Os' = set (remove1 a A) \<union> set (a # Os)"
      by auto
    have len: "length A' + length Os' = length A + length Os"
      using s(6) length_remove1_mem[OF tA] by simp
    have "set (remove1 a A) \<union> set (a # Os) = set A \<union> set Os"
      using set_remove1_mem[OF tA] by auto
    then have un: "set A' \<union> set Os' = set A \<union> set Os" using s(7) by simp
    have mr: "move_reachable root st = Some st'"
      using Some False s(1) hd by (simp add: move_reachable_def Let_def)
    show ?thesis
      using mr s(2,3,5) same_rest_trans[OF 1(2) s(4)] len un Some
      by (intro exI[of _ st'] exI[of _ A'] exI[of _ Os']) simp
  qed
qed

lemma mark_roots_ok:
  assumes "mark_inv RS st A Os" "scanned st Os Os"
    and "\<forall>s \<in> set slots. \<exists>rv. s = Some rv \<and> (\<forall>a. root_vars st rv = Some a \<longrightarrow> a \<in> RS)"
  shows "\<exists>st' A' Os'. mark_roots slots st = Some (Inr st') \<and> mark_inv RS st' A' Os'
           \<and> scanned st' Os' Os' \<and> same_rest RS st st' \<and> set Os \<subseteq> set Os'
           \<and> (\<forall>rv a. Some rv \<in> set slots \<and> root_vars st rv = Some a \<longrightarrow> a \<in> set Os')
           \<and> length A' + length Os' = length A + length Os
           \<and> set A' \<union> set Os' = set A \<union> set Os"
  using assms
proof (induction slots arbitrary: st A Os)
  case Nil
  then show ?case by (intro exI[of _ st] exI[of _ A] exI[of _ Os]) simp
next
  case (Cons s slots)
  from Cons.prems(3) obtain rv where rv: "s = Some rv"
    "\<And>a. root_vars st rv = Some a \<Longrightarrow> a \<in> RS" by auto
  from move_reachable_ok[OF Cons.prems(1,2), of "root_vars st rv"] rv(2) obtain st1 A1 Os1 where
    1: "move_reachable (root_vars st rv) st = Some st1" "mark_inv RS st1 A1 Os1"
       "scanned st1 Os1 Os1" "same_rest RS st st1" "set Os \<subseteq> set Os1"
       "\<forall>a. root_vars st rv = Some a \<longrightarrow> a \<in> set Os1"
       "length A1 + length Os1 = length A + length Os"
       "set A1 \<union> set Os1 = set A \<union> set Os"
    by blast
  have rvs: "root_vars st1 = root_vars st" using 1(4) by (simp add: same_rest_def)
  have pr: "\<forall>s \<in> set slots. \<exists>rv. s = Some rv \<and> (\<forall>a. root_vars st1 rv = Some a \<longrightarrow> a \<in> RS)"
    using Cons.prems(3) rvs by simp
  from Cons.IH[OF 1(2,3) pr] obtain st' A' Os' where
    2: "mark_roots slots st1 = Some (Inr st')" "mark_inv RS st' A' Os'"
       "scanned st' Os' Os'" "same_rest RS st1 st'" "set Os1 \<subseteq> set Os'"
       "\<forall>rv a. Some rv \<in> set slots \<and> root_vars st1 rv = Some a \<longrightarrow> a \<in> set Os'"
       "length A' + length Os' = length A1 + length Os1"
       "set A' \<union> set Os' = set A1 \<union> set Os1"
    by blast
  have a: "\<forall>rv' a. Some rv' \<in> set (s # slots) \<and> root_vars st rv' = Some a \<longrightarrow> a \<in> set Os'"
    using 1(6) 2(5,6) rv(1) rvs by auto
  show ?case
    using 1(1) 2(1,2,3) same_rest_trans[OF 1(4) 2(4)] 1(5) 2(5) a 1(7) 2(7) 1(8) 2(8) rv(1)
    by (intro exI[of _ st'] exI[of _ A'] exI[of _ Os']) auto
qed

subsection \<open>The collection cycle\<close>

lemma stack_set_push_ok:
  assumes "stack_set_wf ss"
  shows "\<exists>ss'. stack_set_push ss v = Inr ss' \<and> stack_set_wf ss' \<and> live ss' = live ss @ [Some v]"
proof (cases "top_ss ss = size_ss ss")
  case True
  let ?o1 = "objs ss @ replicate (nat (size_ss ss)) None"
  let ?ss' = "ss\<lparr>objs := ?o1[nat (top_ss ss) := Some v], size_ss := size_ss ss * 2,
                top_ss := top_ss ss + 1\<rparr>"
  have l: "length (objs ss) = nat (size_ss ss)" using assms by (auto simp: stack_set_wf_def)
  have r: "nat (size_ss ss * 2) - nat (size_ss ss) = nat (size_ss ss)"
    using assms by (auto simp: stack_set_wf_def)
  have t: "nat (top_ss ss) = length (objs ss)" using True l by simp
  have p: "stack_set_push ss v = Inr ?ss'"
    using assms True l r by (simp add: stack_set_push_def Let_def stack_set_wf_def)
  have w: "stack_set_wf ?ss'" using assms True by (simp add: stack_set_wf_def)
  have n: "nat (top_ss ss + 1) = Suc (length (objs ss))" using assms t by (simp add: stack_set_wf_def nat_add_distrib)
  have lv: "live ?ss' = live ss @ [Some v]"
    using assms by (simp add: live_def n t take_Suc_conv_app_nth stack_set_wf_def)
  show ?thesis using p w lv by blast
next
  case False
  let ?ss' = "ss\<lparr>objs := (objs ss)[nat (top_ss ss) := Some v], top_ss := top_ss ss + 1\<rparr>"
  have lt: "nat (top_ss ss) < length (objs ss)" using assms False by (auto simp: stack_set_wf_def)
  have p: "stack_set_push ss v = Inr ?ss'"
    using assms False by (simp add: stack_set_push_def Let_def stack_set_wf_def)
  have w: "stack_set_wf ?ss'" using assms False by (simp add: stack_set_wf_def)
  have n: "nat (top_ss ss + 1) = Suc (nat (top_ss ss))" using assms by (simp add: stack_set_wf_def nat_add_distrib)
  have lv: "live ?ss' = live ss @ [Some v]"
    using lt by (simp add: live_def n take_Suc_conv_app_nth)
  show ?thesis using p w lv by blast
qed

lemma finalize_loop_ok:
  assumes "stack_set_wf (Finalizable_Objects_Next st)"
  shows "\<exists>ss'. finalize_loop (map Some F) st =
            Inr (st\<lparr>Finalizable_Objects_Next := ss',
                    finalize_log := finalize_log st
                       @ map (\<lambda>x. (x, finalization_of (data (cells st x))))
                           (filter (\<lambda>x. color (cells st x) \<noteq> current_color st) F)\<rparr>)
          \<and> stack_set_wf ss'
          \<and> live ss' = live (Finalizable_Objects_Next st)
               @ map Some (filter (\<lambda>x. color (cells st x) = current_color st) F)"
  using assms
proof (induction F arbitrary: st)
  case Nil
  then show ?case by (intro exI[of _ "Finalizable_Objects_Next st"]) simp
next
  case (Cons x F)
  show ?case
  proof (cases "color (cells st x) = current_color st")
    case False
    let ?st1 = "finalize_object x st"
    have w1: "stack_set_wf (Finalizable_Objects_Next ?st1)"
      using Cons.prems by (simp add: finalize_object_def)
    from Cons.IH[OF w1] obtain ss' where
      r: "finalize_loop (map Some F) ?st1 =
            Inr (?st1\<lparr>Finalizable_Objects_Next := ss',
                    finalize_log := finalize_log ?st1
                       @ map (\<lambda>x. (x, finalization_of (data (cells ?st1 x))))
                           (filter (\<lambda>x. color (cells ?st1 x) \<noteq> current_color ?st1) F)\<rparr>)"
         "stack_set_wf ss'"
         "live ss' = live (Finalizable_Objects_Next ?st1)
               @ map Some (filter (\<lambda>x. color (cells ?st1 x) = current_color ?st1) F)"
      by blast
    show ?thesis
      using r False by (intro exI[of _ ss']) (simp add: finalize_object_def)
  next
    case True
    from stack_set_push_ok[OF Cons.prems, of x] obtain ss1 where
      p: "stack_set_push (Finalizable_Objects_Next st) x = Inr ss1" "stack_set_wf ss1"
         "live ss1 = live (Finalizable_Objects_Next st) @ [Some x]"
      by blast
    let ?st1 = "st\<lparr>Finalizable_Objects_Next := ss1\<rparr>"
    have w1: "stack_set_wf (Finalizable_Objects_Next ?st1)" using p(2) by simp
    from Cons.IH[OF w1] obtain ss' where
      r: "finalize_loop (map Some F) ?st1 =
            Inr (?st1\<lparr>Finalizable_Objects_Next := ss',
                    finalize_log := finalize_log ?st1
                       @ map (\<lambda>x. (x, finalization_of (data (cells ?st1 x))))
                           (filter (\<lambda>x. color (cells ?st1 x) \<noteq> current_color ?st1) F)\<rparr>)"
         "stack_set_wf ss'"
         "live ss' = live (Finalizable_Objects_Next ?st1)
               @ map Some (filter (\<lambda>x. color (cells ?st1 x) = current_color ?st1) F)"
      by blast
    show ?thesis
      using r True p by (intro exI[of _ ss']) simp
  qed
qed

lemma map_Some_the: "None \<notin> set xs \<Longrightarrow> map Some (map the xs) = xs"
  by (induction xs) auto

lemma filled_live: "filled ss \<Longrightarrow> live ss = map Some (entries_ss ss)"
  by (simp add: filled_def entries_ss_def map_Some_the del: map_map)

lemma slots_below_top_filled: "filled ss \<Longrightarrow> slots_below_top ss = Inr (map Some (entries_ss ss))"
  using filled_live[of ss] by (simp add: slots_below_top_def filled_def live_def)

lemma reach_closed: "a \<in> reach fs R \<Longrightarrow> set (fs a) \<subseteq> reach fs R"
  by (auto intro: reach.step)

lemma reach_least:
  assumes "R \<subseteq> S" "\<And>a. a \<in> S \<Longrightarrow> set (fs a) \<subseteq> S"
  shows "reach fs R \<subseteq> S"
proof
  fix x assume "x \<in> reach fs R"
  then show "x \<in> S" using assms by (induction rule: reach.induct) auto
qed

lemma word8_arith: "(c::8 word) + 1 + 1 - 1 = c + 1" "(c::8 word) + 1 \<noteq> c + 1 + 1 + 1"
  "(c::8 word) + 1 + 1 = c + 2"
  by simp_all

lemma baker_collect_ok:
  assumes q: "quiescent st A Os"
  shows "\<exists>st' A' Os'. baker_collect st = Some (Inr (int (length A'), st'))
     \<and> quiescent st' A' Os' \<and> set Os' = reachable st \<and> reachable st' = reachable st
     \<and> length A' + length Os' = length A + length Os
     \<and> (\<forall>x \<in> set Os'. color (cells st' x) = current_color st' - 1)
     \<and> Next_Free_Object st' = head (Active_Heap_Objects st')
     \<and> num_objects (Active_Heap_Objects st') = int (length A')
     \<and> current_color st' = current_color st + 2
     \<and> finalized_between st st'
         = filter (\<lambda>x. x \<notin> reachable st) (entries_ss (Finalizable_Objects st))
     \<and> entries_ss (Finalizable_Objects st')
         = filter (\<lambda>x. x \<in> reachable st) (entries_ss (Finalizable_Objects st))
     \<and> (\<forall>x. x \<notin> reachable st \<longrightarrow> color (cells st' x) = color (cells st x))
     \<and> set A' \<union> set Os' = set A \<union> set Os
     \<and> Next_Heap_Extension st' = Next_Heap_Extension st \<and> pool_next st' = pool_next st"
proof -
  let ?RS = "reachable st"
  let ?F = "entries_ss (Finalizable_Objects st)"
  have hl: "heap_lists st A Os" and sub: "?RS \<subseteq> set A \<union> set Os"
    and col: "\<forall>x \<in> ?RS \<union> set ?F. color (cells st x) \<noteq> current_color st + 1"
    and fr: "filled (Root_Objects st)"
    and wf: "stack_set_wf (Finalizable_Objects st)" and ff: "filled (Finalizable_Objects st)"
    and dF: "distinct ?F" and wn: "stack_set_wf (Finalizable_Objects_Next st)"
    and tn: "top_ss (Finalizable_Objects_Next st) = 0"
    using q by (simp_all add: quiescent_def)
  have dA: "dll_ok (cells st) (Active_Heap_Objects st) A"
    and dO: "dll_ok (cells st) (Old_Heap_Objects st) Os" and dis: "set A \<inter> set Os = {}"
    using hl by (auto simp: heap_lists_def)
  from append_to_tail_ok[OF dA dO dis] obtain h act old where
    ap: "append_to_tail (cells st, Active_Heap_Objects st, Old_Heap_Objects st) = (h, act, old)"
    and a1: "dll_ok h act (A @ Os)" "dll_ok h old []"
      "\<forall>a. color (h a) = color (cells st a) \<and> data (h a) = data (cells st a)"
    by blast
  define st1 where "st1 = st\<lparr>cells := h, Active_Heap_Objects := act, Old_Heap_Objects := old,
                        current_color := current_color st + 1\<rparr>"
  have rf1: "refs st1 = refs st" using a1(3) by (auto simp: refs_def st1_def)
  have hl1: "heap_lists st1 (A @ Os) []" using a1 by (simp add: heap_lists_def st1_def)
  have cl: "\<forall>a \<in> ?RS. set (refs st1 a) \<subseteq> ?RS"
    unfolding rf1 reachable_def using reach_closed by blast
  have inv1: "mark_inv ?RS st1 (A @ Os) []"
    unfolding mark_inv_def using hl1 sub col cl a1(3) by (simp add: st1_def)
  have sc1: "scanned st1 [] []" by (simp add: scanned_def)
  have rl: "live (Root_Objects st1) = map Some (entries_ss (Root_Objects st))"
    using filled_live[OF fr] by (simp add: st1_def)
  have sl: "slots_below_top (Root_Objects st1) = Inr (map Some (entries_ss (Root_Objects st)))"
    using slots_below_top_filled[OF fr] by (simp add: st1_def)
  have rts: "\<forall>s \<in> set (map Some (entries_ss (Root_Objects st))).
               \<exists>rv. s = Some rv \<and> (\<forall>a. root_vars st1 rv = Some a \<longrightarrow> a \<in> ?RS)"
  proof
    fix s assume "s \<in> set (map Some (entries_ss (Root_Objects st)))"
    then obtain rv where s: "s = Some rv" "Some rv \<in> set (live (Root_Objects st))"
      using filled_live[OF fr] by auto
    have "\<forall>a. root_vars st1 rv = Some a \<longrightarrow> a \<in> ?RS"
    proof (intro allI impI)
      fix a assume "root_vars st1 rv = Some a"
      then have "a \<in> root_set st" using s(2) by (auto simp: root_set_def st1_def)
      then show "a \<in> ?RS" unfolding reachable_def by (rule reach.root)
    qed
    then show "\<exists>rv. s = Some rv \<and> (\<forall>a. root_vars st1 rv = Some a \<longrightarrow> a \<in> ?RS)"
      using s(1) by blast
  qed
  from mark_roots_ok[OF inv1 sc1 rts] obtain st2 A2 Os2 where
    mr: "mark_roots (map Some (entries_ss (Root_Objects st))) st1 = Some (Inr st2)"
    and inv2: "mark_inv ?RS st2 A2 Os2" and sc2: "scanned st2 Os2 Os2"
    and sr: "same_rest ?RS st1 st2"
    and ro: "\<forall>rv a. Some rv \<in> set (map Some (entries_ss (Root_Objects st)))
                \<and> root_vars st1 rv = Some a \<longrightarrow> a \<in> set Os2"
    and len: "length A2 + length Os2 = length (A @ Os) + length ([]::addr list)"
    and un: "set A2 \<union> set Os2 = set (A @ Os) \<union> set ([]::addr list)"
    by blast
  have rf2: "refs st2 = refs st" using same_rest_refs[OF sr] rf1 by simp
  have O2: "set Os2 = ?RS"
  proof
    show "set Os2 \<subseteq> ?RS" using inv2 by (simp add: mark_inv_def)
    have "root_set st \<subseteq> set Os2"
    proof
      fix a assume "a \<in> root_set st"
      then obtain rv where "Some rv \<in> set (live (Root_Objects st))" "root_vars st rv = Some a"
        by (auto simp: root_set_def)
      then have "Some rv \<in> set (map Some (entries_ss (Root_Objects st))) \<and> root_vars st1 rv = Some a"
        using filled_live[OF fr] by (simp add: st1_def)
      then show "a \<in> set Os2" using ro by blast
    qed
    moreover have "\<And>a. a \<in> set Os2 \<Longrightarrow> set (refs st a) \<subseteq> set Os2"
      using sc2 rf2 by (auto simp: scanned_def)
    ultimately show "?RS \<subseteq> set Os2" unfolding reachable_def by (rule reach_least)
  qed
  have keep: "Root_Objects st2 = Root_Objects st" "root_vars st2 = root_vars st"
    "Finalizable_Objects st2 = Finalizable_Objects st"
    "Finalizable_Objects_Next st2 = Finalizable_Objects_Next st"
    "current_color st2 = current_color st + 1" "finalize_log st2 = finalize_log st"
    "Next_Heap_Extension st2 = Next_Heap_Extension st" "pool_next st2 = pool_next st"
    using sr by (simp_all add: same_rest_def st1_def)
  have colO: "\<forall>x \<in> set Os2. color (cells st2 x) = current_color st + 1"
    using inv2 keep(5) by (simp add: mark_inv_def)
  have colN: "\<forall>x. x \<notin> ?RS \<longrightarrow> color (cells st2 x) = color (cells st x)"
    using sr a1(3) by (simp add: same_rest_def st1_def)
  have fcol: "\<And>x. x \<in> set ?F \<Longrightarrow> (color (cells st2 x) = current_color st2) = (x \<in> ?RS)"
    using colO colN col O2 keep(5) by (metis UnCI)
  have f1: "filter (\<lambda>x. color (cells st2 x) \<noteq> current_color st2) ?F = filter (\<lambda>x. x \<notin> ?RS) ?F"
    using fcol by (intro filter_cong) auto
  have f2: "filter (\<lambda>x. color (cells st2 x) = current_color st2) ?F = filter (\<lambda>x. x \<in> ?RS) ?F"
    using fcol by (intro filter_cong) auto
  have sf: "slots_below_top (Finalizable_Objects st2) = Inr (map Some ?F)"
    using slots_below_top_filled[OF ff] keep(3) by simp
  have wn2: "stack_set_wf (Finalizable_Objects_Next st2)" using wn keep(4) by simp
  from finalize_loop_ok[OF wn2, of ?F] obtain ss' where
    fl: "finalize_loop (map Some ?F) st2 =
            Inr (st2\<lparr>Finalizable_Objects_Next := ss',
                    finalize_log := finalize_log st2
                       @ map (\<lambda>x. (x, finalization_of (data (cells st2 x))))
                           (filter (\<lambda>x. x \<notin> ?RS) ?F)\<rparr>)"
    and wss: "stack_set_wf ss'"
    and lss: "live ss' = live (Finalizable_Objects_Next st2) @ map Some (filter (\<lambda>x. x \<in> ?RS) ?F)"
    unfolding f1 f2 by blast
  have lss': "live ss' = map Some (filter (\<lambda>x. x \<in> ?RS) ?F)"
    using lss tn keep(4) by (simp add: live_def)
  define st5 where "st5 = st2\<lparr>Finalizable_Objects_Next := clear_stack_set (Finalizable_Objects st2),
                    finalize_log := finalize_log st2
                       @ map (\<lambda>x. (x, finalization_of (data (cells st2 x))))
                           (filter (\<lambda>x. x \<notin> ?RS) ?F),
                    Finalizable_Objects := ss',
                    current_color := current_color st2 + 1,
                    Next_Free_Object := head (Active_Heap_Objects st2)\<rparr>"
  have bc: "baker_collect st = Some (Inr (num_objects (Active_Heap_Objects st2), st5))"
    unfolding baker_collect_def ap prod.case Let_def st1_def[symmetric] sl sum.case mr option.case
      sf bnd_simps fl
    by (simp add: st5_def)
  have hl2: "heap_lists st2 A2 Os2" using inv2 by (simp add: mark_inv_def)
  have hl5: "heap_lists st5 A2 Os2" using hl2 by (simp add: heap_lists_def st5_def)
  have n5: "num_objects (Active_Heap_Objects st2) = int (length A2)"
    using hl2 by (simp add: heap_lists_def dll_ok_def)
  have rs5: "root_set st5 = root_set st" using keep by (simp add: root_set_def st5_def)
  have rf5: "refs st5 = refs st" using rf2 by (simp add: refs_def st5_def fun_eq_iff)
  have re5: "reachable st5 = ?RS" by (simp add: reachable_def rs5 rf5)
  have e5: "entries_ss (Finalizable_Objects st5) = filter (\<lambda>x. x \<in> ?RS) ?F"
    by (simp add: st5_def entries_ss_def lss' comp_def)
  have fil5: "filled (Finalizable_Objects st5)"
    using wss lss' by (auto simp: st5_def filled_def stack_set_wf_def)
  have c5: "current_color st5 = current_color st + 2" using keep(5) by (simp add: st5_def)
  have colO5: "\<forall>x \<in> set Os2. color (cells st5 x) = current_color st5 - 1"
    using colO c5 by (simp add: st5_def)
  have q5: "quiescent st5 A2 Os2"
    unfolding quiescent_def re5 e5
  proof (intro conjI)
    show "heap_lists st5 A2 Os2" by (rule hl5)
    show "?RS \<subseteq> set A2 \<union> set Os2" using O2 by auto
    show "\<forall>x\<in>?RS \<union> set (filter (\<lambda>x. x \<in> ?RS) ?F). color (cells st5 x) \<noteq> current_color st5 + 1"
      using colO5 O2 c5 by auto
    show "filled (Root_Objects st5)" using fr keep(1) by (simp add: st5_def)
    show "stack_set_wf (Finalizable_Objects st5)" using wss by (simp add: st5_def)
    show "filled (Finalizable_Objects st5)" by (rule fil5)
    show "distinct (filter (\<lambda>x. x \<in> ?RS) ?F)" using dF by simp
    show "stack_set_wf (Finalizable_Objects_Next st5)"
      using wf keep(3) by (simp add: st5_def clear_stack_set_def stack_set_wf_def)
    show "top_ss (Finalizable_Objects_Next st5) = 0" by (simp add: st5_def clear_stack_set_def)
  qed
  have fb: "finalized_between st st5 = filter (\<lambda>x. x \<notin> ?RS) ?F"
    using keep(6) by (simp add: finalized_between_def st5_def comp_def)
  have colN5: "\<forall>x. x \<notin> ?RS \<longrightarrow> color (cells st5 x) = color (cells st x)"
    using colN by (simp add: st5_def)
  have len5: "length A2 + length Os2 = length A + length Os" using len by simp
  have un5: "set A2 \<union> set Os2 = set A \<union> set Os" using un by simp
  have k5: "Next_Heap_Extension st5 = Next_Heap_Extension st" "pool_next st5 = pool_next st"
    using keep(7,8) by (simp_all add: st5_def)
  have nf5: "Next_Free_Object st5 = head (Active_Heap_Objects st5)" by (simp add: st5_def)
  have na5: "num_objects (Active_Heap_Objects st5) = int (length A2)" using n5 by (simp add: st5_def)
  show ?thesis
    unfolding bc n5
    using q5 O2 re5 len5 colO5 nf5 na5 c5 fb e5 colN5 un5 k5
    by (intro exI[of _ st5] exI[of _ A2] exI[of _ Os2]) simp
qed

subsection \<open>The concrete heap\<close>

lemma ex_root_set: "root_set ex_gc = {1}"
  by (auto simp: root_set_def ex_gc_def live_def)

lemma ex_reachable: "reachable ex_gc = {1, 2, 3}"
proof
  show "reachable ex_gc \<subseteq> {1, 2, 3}"
    unfolding reachable_def ex_root_set
    by (rule reach_least) (auto simp: refs_def ex_gc_def ex_cells_def)
  have 1: "1 \<in> reachable ex_gc" unfolding reachable_def ex_root_set by (rule reach.root) simp
  have r: "refs ex_gc (Suc 0) = [2, 3]" by (simp add: refs_def ex_gc_def ex_cells_def)
  have 2: "2 \<in> reachable ex_gc"
    using 1 unfolding reachable_def by (rule reach.step) (simp add: r)
  have 3: "3 \<in> reachable ex_gc"
    using 1 unfolding reachable_def by (rule reach.step) (simp add: r)
  show "{1, 2, 3} \<subseteq> reachable ex_gc" using 1 2 3 by simp
qed

lemma ex_entries: "entries_ss (Finalizable_Objects ex_gc) = [2, 4]"
  by (simp add: entries_ss_def live_def ex_gc_def)

lemma ex_heap_lists: "heap_lists ex_gc [4, 1, 5] [2, 3]"
  by (simp add: heap_lists_def dll_ok_def ex_gc_def ex_cells_def first_of_def last_of_def
      succ_in.simps pred_in.simps)

lemma ex_quiescent: "quiescent ex_gc [4, 1, 5] [2, 3]"
  unfolding quiescent_def ex_reachable ex_entries
proof (intro conjI)
  show "heap_lists ex_gc [4, 1, 5] [2, 3]" by (rule ex_heap_lists)
  show "\<forall>x\<in>{1, 2, 3} \<union> set [2, 4]. color (cells ex_gc x) \<noteq> current_color ex_gc + 1"
    by (simp add: ex_gc_def ex_cells_def)
qed (simp_all add: ex_gc_def filled_def stack_set_wf_def live_def)

lemma count_list_distinct: "distinct xs \<Longrightarrow> count_list xs x = (if x \<in> set xs then 1 else 0)"
  by (induction xs) auto

lemma entries_ss_empty: "top_ss ss = 0 \<Longrightarrow> entries_ss ss = []"
  by (simp add: entries_ss_def live_def)

text \<open>
  Claim C3.  Let \<^verbatim>\<open>baker_collect\<close> be called in a state between two collections
  (\<open>quiescent\<close>).  Then the call returns; afterwards the two heap lists are well formed,
  the reachable objects are those that were reachable before, every one of them is on
  the old list and carries the colour \<^verbatim>\<open>current_color - 1\<close>, \<^verbatim>\<open>Next_Free_Object\<close> is the
  head of the active list, and the returned value is the object count of the active list.
\<close>

theorem baker_collect_reachable_on_old:
  assumes "quiescent st A Os"
  shows "\<exists>n st' A' Os'. baker_collect st = Some (Inr (n, st'))
      \<and> heap_lists st' A' Os' \<and> reachable st' = reachable st
      \<and> (\<forall>x \<in> reachable st'. x \<in> set Os' \<and> color (cells st' x) = current_color st' - 1)
      \<and> Next_Free_Object st' = head (Active_Heap_Objects st')
      \<and> n = num_objects (Active_Heap_Objects st')"
proof -
  from baker_collect_ok[OF assms] obtain st' A' Os' where
    r: "baker_collect st = Some (Inr (int (length A'), st'))" "quiescent st' A' Os'"
       "set Os' = reachable st" "reachable st' = reachable st"
       "\<forall>x \<in> set Os'. color (cells st' x) = current_color st' - 1"
       "Next_Free_Object st' = head (Active_Heap_Objects st')"
       "num_objects (Active_Heap_Objects st') = int (length A')"
    by blast
  have hl: "heap_lists st' A' Os'" using r(2) by (simp add: quiescent_def)
  have c: "\<forall>x \<in> reachable st'. x \<in> set Os' \<and> color (cells st' x) = current_color st' - 1"
    using r(3,4,5) by simp
  show ?thesis
    using r(1) hl r(4) c r(6) r(7)
    by (intro exI[of _ "int (length A')"] exI[of _ st'] exI[of _ A'] exI[of _ Os']) simp
qed

theorem baker_collect_reachable_on_old_witness:
  "quiescent ex_gc [4, 1, 5] [2, 3]
   \<and> (\<exists>n st' A' Os'. baker_collect ex_gc = Some (Inr (n, st'))
      \<and> heap_lists st' A' Os' \<and> reachable st' = {1, 2, 3}
      \<and> (\<forall>x \<in> reachable st'. x \<in> set Os' \<and> color (cells st' x) = current_color st' - 1)
      \<and> Next_Free_Object st' = head (Active_Heap_Objects st')
      \<and> n = num_objects (Active_Heap_Objects st'))"
  using baker_collect_reachable_on_old[OF ex_quiescent] ex_quiescent
  by (simp add: ex_reachable)

text \<open>
  Claim C5.  Two calls of \<^verbatim>\<open>baker_collect\<close> in a row, the first in a state between two
  collections: both return, with the same count; the old list after the second call has
  the same members as after the first, each in the colour \<^verbatim>\<open>current_color - 1\<close> of its
  state, and \<^verbatim>\<open>current_color\<close> has advanced by two.
\<close>

theorem baker_collect_twice:
  assumes "quiescent st A Os"
  shows "\<exists>n st1 st2 A1 O1 A2 O2.
        baker_collect st = Some (Inr (n, st1)) \<and> baker_collect st1 = Some (Inr (n, st2))
      \<and> heap_lists st1 A1 O1 \<and> heap_lists st2 A2 O2 \<and> set O2 = set O1
      \<and> (\<forall>x \<in> set O1. color (cells st1 x) = current_color st1 - 1
                       \<and> color (cells st2 x) = current_color st2 - 1)
      \<and> current_color st2 = current_color st1 + 2"
proof -
  from baker_collect_ok[OF assms] obtain st1 A1 O1 where
    r: "baker_collect st = Some (Inr (int (length A1), st1))" "quiescent st1 A1 O1"
       "set O1 = reachable st" "reachable st1 = reachable st"
       "\<forall>x \<in> set O1. color (cells st1 x) = current_color st1 - 1"
    by blast
  from baker_collect_ok[OF r(2)] obtain st2 A2 O2 where
    s: "baker_collect st1 = Some (Inr (int (length A2), st2))" "quiescent st2 A2 O2"
       "set O2 = reachable st1" "length A2 + length O2 = length A1 + length O1"
       "\<forall>x \<in> set O2. color (cells st2 x) = current_color st2 - 1"
       "current_color st2 = current_color st1 + 2"
    by blast
  have h1: "heap_lists st1 A1 O1" using r(2) by (simp add: quiescent_def)
  have h2: "heap_lists st2 A2 O2" using s(2) by (simp add: quiescent_def)
  have e: "set O2 = set O1" using s(3) r(3,4) by simp
  have "distinct O1" "distinct O2" using h1 h2 by (simp_all add: heap_lists_def dll_ok_def)
  then have "length O1 = length O2" using e by (metis distinct_card)
  then have l: "length A2 = length A1" using s(4) by simp
  have c: "\<forall>x \<in> set O1. color (cells st1 x) = current_color st1 - 1
                       \<and> color (cells st2 x) = current_color st2 - 1"
    using r(5) s(5) e by simp
  show ?thesis
    using r(1) s(1) h1 h2 e c s(6) unfolding l
    by (intro exI[of _ "int (length A1)"] exI[of _ st1] exI[of _ st2]
          exI[of _ A1] exI[of _ O1] exI[of _ A2] exI[of _ O2]) simp
qed

theorem baker_collect_twice_witness:
  "quiescent ex_gc [4, 1, 5] [2, 3]
   \<and> (\<exists>n st1 st2 A1 O1 A2 O2.
        baker_collect ex_gc = Some (Inr (n, st1)) \<and> baker_collect st1 = Some (Inr (n, st2))
      \<and> heap_lists st1 A1 O1 \<and> heap_lists st2 A2 O2 \<and> set O2 = set O1
      \<and> (\<forall>x \<in> set O1. color (cells st1 x) = current_color st1 - 1
                       \<and> color (cells st2 x) = current_color st2 - 1)
      \<and> current_color st2 = current_color st1 + 2)"
  using baker_collect_twice[OF ex_quiescent] ex_quiescent
  by simp

text \<open>
  Claim C7.  Let \<^verbatim>\<open>baker_collect\<close> be called in a state between two collections.  Then it
  returns, and for every object \<open>x\<close> of the finalizable stack: \<open>x\<close> is reachable from the
  roots exactly when it carries the mark colour, which is \<^verbatim>\<open>current_color - 1\<close> after the
  call.  If \<open>x\<close> is not reachable, the call has invoked \<^verbatim>\<open>finalize_object\<close> on it exactly
  once and \<open>x\<close> is on neither finalizable stack afterwards.  If \<open>x\<close> is reachable, the call
  has not invoked \<^verbatim>\<open>finalize_object\<close> on it, \<open>x\<close> is exactly once on the new
  \<^verbatim>\<open>Finalizable_Objects\<close> and not on \<^verbatim>\<open>Finalizable_Objects_Next\<close>.
\<close>

theorem baker_collect_finalizes_unreached:
  assumes "quiescent st A Os"
  shows "\<exists>n st'. baker_collect st = Some (Inr (n, st'))
     \<and> (\<forall>x \<in> set (entries_ss (Finalizable_Objects st)).
          (x \<in> reachable st \<longleftrightarrow> color (cells st' x) = current_color st' - 1)
          \<and> (if x \<in> reachable st
             then count_list (finalized_between st st') x = 0
                  \<and> count_list (entries_ss (Finalizable_Objects st')) x = 1
             else count_list (finalized_between st st') x = 1
                  \<and> x \<notin> set (entries_ss (Finalizable_Objects st')))
          \<and> x \<notin> set (entries_ss (Finalizable_Objects_Next st')))"
proof -
  let ?F = "entries_ss (Finalizable_Objects st)"
  from baker_collect_ok[OF assms] obtain st' A' Os' where
    r: "baker_collect st = Some (Inr (int (length A'), st'))" "quiescent st' A' Os'"
       "set Os' = reachable st"
       "\<forall>x \<in> set Os'. color (cells st' x) = current_color st' - 1"
       "current_color st' = current_color st + 2"
       "finalized_between st st' = filter (\<lambda>x. x \<notin> reachable st) ?F"
       "entries_ss (Finalizable_Objects st') = filter (\<lambda>x. x \<in> reachable st) ?F"
       "\<forall>x. x \<notin> reachable st \<longrightarrow> color (cells st' x) = color (cells st x)"
    by blast
  have d: "distinct ?F" and col: "\<forall>x \<in> set ?F. color (cells st x) \<noteq> current_color st + 1"
    using assms by (simp_all add: quiescent_def)
  have n: "entries_ss (Finalizable_Objects_Next st') = []"
    using r(2) by (intro entries_ss_empty) (simp add: quiescent_def)
  have cc: "current_color st' - 1 = current_color st + 1" using r(5) by simp
  have "\<forall>x \<in> set ?F.
          (x \<in> reachable st \<longleftrightarrow> color (cells st' x) = current_color st' - 1)
          \<and> (if x \<in> reachable st
             then count_list (finalized_between st st') x = 0
                  \<and> count_list (entries_ss (Finalizable_Objects st')) x = 1
             else count_list (finalized_between st st') x = 1
                  \<and> x \<notin> set (entries_ss (Finalizable_Objects st')))
          \<and> x \<notin> set (entries_ss (Finalizable_Objects_Next st'))"
  proof
    fix x assume x: "x \<in> set ?F"
    have 1: "x \<in> reachable st \<longleftrightarrow> color (cells st' x) = current_color st' - 1"
    proof (cases "x \<in> reachable st")
      case True
      then show ?thesis using r(3,4) by simp
    next
      case False
      then have "color (cells st' x) = color (cells st x)" using r(8) by simp
      moreover have "color (cells st x) \<noteq> current_color st + 1" using col x by blast
      ultimately show ?thesis using False unfolding cc by simp
    qed
    have c1: "count_list (finalized_between st st') x = (if x \<in> reachable st then 0 else 1)"
      unfolding r(6) using x d by (simp add: count_list_distinct)
    have c2: "count_list (entries_ss (Finalizable_Objects st')) x = (if x \<in> reachable st then 1 else 0)"
      unfolding r(7) using x d by (simp add: count_list_distinct)
    have c3: "x \<notin> reachable st \<Longrightarrow> x \<notin> set (entries_ss (Finalizable_Objects st'))"
      unfolding r(7) by simp
    show "(x \<in> reachable st \<longleftrightarrow> color (cells st' x) = current_color st' - 1)
          \<and> (if x \<in> reachable st
             then count_list (finalized_between st st') x = 0
                  \<and> count_list (entries_ss (Finalizable_Objects st')) x = 1
             else count_list (finalized_between st st') x = 1
                  \<and> x \<notin> set (entries_ss (Finalizable_Objects st')))
          \<and> x \<notin> set (entries_ss (Finalizable_Objects_Next st'))"
      using 1 c1 c2 c3 n by simp
  qed
  then show ?thesis using r(1) by blast
qed

theorem baker_collect_finalizes_unreached_witness:
  "quiescent ex_gc [4, 1, 5] [2, 3]
   \<and> (\<exists>n st'. baker_collect ex_gc = Some (Inr (n, st'))
        \<and> color (cells st' 2) = current_color st' - 1
        \<and> count_list (finalized_between ex_gc st') 2 = 0
        \<and> count_list (entries_ss (Finalizable_Objects st')) 2 = 1
        \<and> 2 \<notin> set (entries_ss (Finalizable_Objects_Next st'))
        \<and> color (cells st' 4) \<noteq> current_color st' - 1
        \<and> count_list (finalized_between ex_gc st') 4 = 1
        \<and> 4 \<notin> set (entries_ss (Finalizable_Objects st'))
        \<and> 4 \<notin> set (entries_ss (Finalizable_Objects_Next st')))"
  using baker_collect_finalizes_unreached[OF ex_quiescent] ex_quiescent
  by (simp add: ex_reachable ex_entries)

subsection \<open>Heap extension and allocation\<close>











lemma c_div_nonneg: "0 \<le> a \<Longrightarrow> 0 \<le> b \<Longrightarrow> c_div a b = a div b"
  by (cases "a = 0"; cases "b = 0") (simp_all add: c_div_def)






end
